theory Spec2Isabelle
  imports Complex_Main "HOL-Library.Word" "HOL-Library.Multiset" "HOL-Library.AList"
begin

unbundle bit_operations_syntax

section \<open>JavaScript strings\<close>

text \<open>
  A string is the list of its code units; the model covers the code units below 256
  (Latin-1), which is what \<open>char\<close> holds. \<open>trim\<close> removes the white space and line
  terminators of that range, \<open>toLowerCase\<close> maps the upper-case letters of that range.
\<close>

definition is_line_terminator :: "char \<Rightarrow> bool" where
  "is_line_terminator c = (c = CHR 0x0A \<or> c = CHR 0x0D)"

definition is_whitespace :: "char \<Rightarrow> bool" where
  "is_whitespace c =
     (c = CHR 0x09 \<or> c = CHR 0x0A \<or> c = CHR 0x0B \<or> c = CHR 0x0C \<or> c = CHR 0x0D \<or>
      c = CHR 0x20 \<or> c = CHR 0xA0)"

definition trim :: "string \<Rightarrow> string" where
  "trim s = rev (dropWhile is_whitespace (rev (dropWhile is_whitespace s)))"

definition lower_char :: "char \<Rightarrow> char" where
  "lower_char c =
     (let n = (of_char c :: nat)
      in if (65 \<le> n \<and> n \<le> 90) \<or> (192 \<le> n \<and> n \<le> 222 \<and> n \<noteq> 215)
         then char_of (n + 32) else c)"

definition toLowerCase :: "string \<Rightarrow> string" where
  "toLowerCase s = map lower_char s"

definition startsWith :: "string \<Rightarrow> string \<Rightarrow> bool" where
  "startsWith s p = (take (length p) s = p)"

definition endsWith :: "string \<Rightarrow> string \<Rightarrow> bool" where
  "endsWith s p = (length p \<le> length s \<and> drop (length s - length p) s = p)"

definition slice_inner :: "string \<Rightarrow> string" where
  \<comment> \<open>\<open>p.slice(1, -1)\<close>\<close>
  "slice_inner p = take (length p - 2) (drop 1 p)"

fun split_on :: "char \<Rightarrow> string \<Rightarrow> string list" where
  \<comment> \<open>\<open>s.split(sep)\<close> for a one-character separator: never empty, \<open>\<close> gives \<open>[]\<close>\<close>
  "split_on sep [] = [[]]"
| "split_on sep (c # cs) =
     (if c = sep then [] # split_on sep cs
      else (case split_on sep cs of [] \<Rightarrow> [[c]] | x # xs \<Rightarrow> (c # x) # xs))"

section \<open>JavaScript numbers\<close>

text \<open>
  JavaScript numbers are IEEE-754 binary64 values. The progress store divides two counts
  and multiplies by 100 before \<open>Math.round\<close>, and the double rounding of the quotient is
  visible in the result (23 of 40 gives 57, not 58), so the two operations are modelled
  with their rounding: a finite double is the rational it denotes, and \<open>fl\<close> rounds a
  rational to the nearest value with a 53-bit significand, ties to even. Overflow and
  subnormals do not occur for the operands used here (quotients of counts in \<open>[0, 1]\<close> and
  their products with 100).
\<close>

function bit_length :: "int \<Rightarrow> int" where
  "bit_length k = (if k \<le> 0 then 0 else 1 + bit_length (k div 2))"
  by pat_completeness auto
termination
  by (relation "measure nat") auto

declare bit_length.simps [simp del]

definition pow2 :: "int \<Rightarrow> rat" where
  "pow2 e = (if 0 \<le> e then 2 ^ nat e else 1 / 2 ^ nat (- e))"

definition binary_exponent :: "rat \<Rightarrow> int" where
  \<comment> \<open>for \<open>x > 0\<close>: the \<open>e\<close> with \<open>2 ^ e \<le> x < 2 ^ (e + 1)\<close>\<close>
  "binary_exponent x =
     (let (p, q) = quotient_of x;
          e0 = bit_length p - bit_length q
      in if x < pow2 e0 then e0 - 1 else e0)"

definition round_half_even :: "rat \<Rightarrow> int" where
  "round_half_even m =
     (let f = \<lfloor>m\<rfloor>; d = m - of_int f
      in if d < 1 / 2 then f else if 1 / 2 < d then f + 1 else if even f then f else f + 1)"

definition fl :: "rat \<Rightarrow> rat" where
  "fl x =
     (if x = 0 then 0
      else let a = \<bar>x\<bar>; e = binary_exponent a; m = round_half_even (a * pow2 (52 - e))
           in sgn x * of_int m * pow2 (e - 52))"

definition js_div :: "rat \<Rightarrow> rat \<Rightarrow> rat" where
  \<comment> \<open>\<open>a / b\<close> for a nonzero divisor (the only use is behind a \<open>totalExercises > 0\<close> guard)\<close>
  "js_div a b = fl (a / b)"



section \<open>Progress store (\<open>utils/progress\<close>)\<close>










section \<open>Lesson progress is capped at the manifest's count\<close>

subsection \<open>The rounding error of the two double operations\<close>

lemma bit_length_bounds:
  "0 < k \<Longrightarrow> 2 ^ nat (bit_length k - 1) \<le> k \<and> k < 2 ^ nat (bit_length k) \<and> 1 \<le> bit_length k"
proof (induction k rule: bit_length.induct)
  case (1 k)
  show ?case
  proof (cases "k div 2 = 0")
    case True
    with 1(2) have "k = 1" by auto
    then show ?thesis
      by (simp add: bit_length.simps)
  next
    case False
    with 1(2) have pos: "0 < k div 2" by simp
    have nle: "\<not> k \<le> 0" using 1(2) by simp
    note IH = 1(1) [OF nle pos]
    define b where "b = bit_length (k div 2)"
    from IH have b1: "1 \<le> b" and lo: "2 ^ nat (b - 1) \<le> k div 2" and hi: "k div 2 < 2 ^ nat b"
      by (simp_all add: b_def)
    have bl: "bit_length k = 1 + b"
      using nle by (simp add: bit_length.simps [of k] b_def)
    have nb: "nat b = Suc (nat (b - 1))" using b1 by simp
    have pw: "(2::int) ^ nat b = 2 * 2 ^ nat (b - 1)"
      by (simp only: nb power_Suc)
    have n2: "nat (1 + b) = Suc (nat b)" using b1 by simp
    have "2 * 2 ^ nat (b - 1) \<le> 2 * (k div 2)" using lo by simp
    also have "\<dots> \<le> k" by simp
    finally have l: "(2::int) ^ nat (bit_length k - 1) \<le> k"
      by (simp add: bl pw)
    have "k < 2 * (k div 2) + 2" by simp
    also have "\<dots> \<le> 2 * 2 ^ nat b" using hi by simp
    finally have h: "k < 2 ^ nat (bit_length k)"
      by (simp only: bl n2 power_Suc)
    from l h b1 show ?thesis by (simp add: bl)
  qed
qed

lemma pow2_powi: "pow2 e = 2 powi e"
  by (simp add: pow2_def power_int_def inverse_eq_divide power_divide)

lemma of_int_pow2: "0 \<le> b \<Longrightarrow> (of_int (2 ^ nat b) :: rat) = 2 powi b"
  by (simp add: power_int_def)

lemma binary_exponent_bounds:
  assumes "0 < x"
  shows "2 powi (binary_exponent x) \<le> x \<and> x < 2 powi (binary_exponent x + 1)"
proof -
  obtain p q where pq: "quotient_of x = (p, q)" by (cases "quotient_of x")
  then have q: "0 < q" and x: "x = of_int p / of_int q"
    using quotient_of_denom_pos [of x p q] quotient_of_div [of x p q] by simp_all
  from assms x q have p: "0 < p"
    by (simp add: zero_less_divide_iff)
  define bp where "bp = bit_length p"
  define bq where "bq = bit_length q"
  from bit_length_bounds [OF p] have bp: "1 \<le> bp" "2 ^ nat (bp - 1) \<le> p" "p < 2 ^ nat bp"
    by (simp_all add: bp_def)
  from bit_length_bounds [OF q] have bq: "1 \<le> bq" "2 ^ nat (bq - 1) \<le> q" "q < 2 ^ nat bq"
    by (simp_all add: bq_def)
  have P1: "(2::rat) powi (bp - 1) \<le> of_int p"
    using bp(1,2) of_int_pow2 [of "bp - 1"] by (metis diff_ge_0_iff_ge of_int_le_iff)
  have P2: "(of_int p :: rat) < 2 powi bp"
    using bp(1,3) of_int_pow2 [of bp] by (metis of_int_less_iff order_trans zero_le_one)
  have Q1: "(2::rat) powi (bq - 1) \<le> of_int q"
    using bq(1,2) of_int_pow2 [of "bq - 1"] by (metis diff_ge_0_iff_ge of_int_le_iff)
  have Q2: "(of_int q :: rat) < 2 powi bq"
    using bq(1,3) of_int_pow2 [of bq] by (metis of_int_less_iff order_trans zero_le_one)
  have qpos: "(0::rat) < of_int q" using q by simp
  have lower: "2 powi (bp - bq - 1) < x"
  proof -
    have "(2::rat) powi (bp - bq - 1) * of_int q < 2 powi (bp - bq - 1) * 2 powi bq"
      using Q2 by (simp add: zero_less_power_int)
    also have "\<dots> = 2 powi (bp - 1)"
      by (simp add: power_int_add [symmetric])
    also have "\<dots> \<le> of_int p" by (rule P1)
    finally show ?thesis
      using qpos by (simp add: x pos_less_divide_eq)
  qed
  have upper: "x < 2 powi (bp - bq + 1)"
  proof -
    have "(of_int p :: rat) < 2 powi bp" by (rule P2)
    also have "\<dots> = 2 powi (bp - bq + 1) * 2 powi (bq - 1)"
      by (simp add: power_int_add [symmetric])
    also have "\<dots> \<le> 2 powi (bp - bq + 1) * of_int q"
      using Q1 by (simp add: zero_less_power_int)
    finally show ?thesis
      using qpos by (simp add: x pos_divide_less_eq)
  qed
  have be: "binary_exponent x = (if x < 2 powi (bp - bq) then bp - bq - 1 else bp - bq)"
    by (simp add: binary_exponent_def pq Let_def bp_def bq_def pow2_powi)
  show ?thesis
  proof (cases "x < 2 powi (bp - bq)")
    case True
    with lower show ?thesis by (simp add: be)
  next
    case False
    with upper show ?thesis by (simp add: be)
  qed
qed

lemma round_half_even_bound: "\<bar>of_int (round_half_even m) - m\<bar> \<le> 1 / 2"
proof -
  have "of_int \<lfloor>m\<rfloor> \<le> m" "m < of_int \<lfloor>m\<rfloor> + 1"
    by linarith+
  then show ?thesis
    by (auto simp: round_half_even_def Let_def)
qed

lemma fl_error:
  assumes "0 < x"
  shows "\<bar>fl x - x\<bar> \<le> x / 2 ^ 53"
proof -
  define e where "e = binary_exponent x"
  define m where "m = round_half_even (x * 2 powi (52 - e))"
  from binary_exponent_bounds [OF assms] have lo: "2 powi e \<le> x"
    by (simp add: e_def)
  have flx: "fl x = of_int m * 2 powi (e - 52)"
    using assms by (simp add: fl_def Let_def e_def m_def pow2_powi)
  have unit: "(2::rat) powi (52 - e) * 2 powi (e - 52) = 1"
    by (simp add: power_int_add [symmetric])
  have "fl x - x = (of_int m - x * 2 powi (52 - e)) * 2 powi (e - 52)"
    using unit by (simp add: flx algebra_simps)
  then have "\<bar>fl x - x\<bar> = \<bar>of_int m - x * 2 powi (52 - e)\<bar> * 2 powi (e - 52)"
    by (simp add: abs_mult)
  also have "\<dots> \<le> (1 / 2) * 2 powi (e - 52)"
    using round_half_even_bound [of "x * 2 powi (52 - e)"]
    by (intro mult_right_mono) (simp_all add: m_def)
  also have "\<dots> = 2 powi e / 2 ^ 53"
  proof -
    have "(2::rat) powi (e - 52) = 2 powi e / 2 ^ 52"
      by (simp add: power_int_diff)
    then show ?thesis by simp
  qed
  also have "\<dots> \<le> x / 2 ^ 53"
    using lo by (simp add: divide_right_mono)
  finally show ?thesis .
qed

lemma fl_zero: "fl 0 = 0"
  by (simp add: fl_def)



subsection \<open>The reported progress\<close>

lemma fl_one: "fl 1 = 1"
  by code_simp

lemma fl_hundred: "fl 100 = 100"
  by code_simp










section \<open>Blank micro-syntax (\<open>hooks/useBlanks\<close>)\<close>

record BlankData =
  answer :: string
  localOptions :: "string list"
  hint :: "string option"

text \<open>
  \<open>text.split(/(\[.*?\])/g)\<close>. The pattern matches at a \<open>[\<close> whose next \<open>]\<close> comes
  before any line terminator (\<open>.\<close> does not match one), up to that \<open>]\<close>; the split
  returns the text before the leftmost match, the match (the capture group), and goes
  on behind it, ending with the text behind the last match.
\<close>

fun closes_on_line :: "string \<Rightarrow> bool" where
  "closes_on_line [] = False"
| "closes_on_line (c # cs) =
     (if c = CHR '']'' then True
      else if is_line_terminator c then False
      else closes_on_line cs)"

fun take_token :: "string \<Rightarrow> string \<times> string" where
  \<comment> \<open>behind a matching \<open>[\<close>: the characters up to the first \<open>]\<close>, and the text behind it\<close>
  "take_token [] = ([], [])"
| "take_token (c # cs) =
     (if c = CHR '']'' then ([], cs)
      else (case take_token cs of (content, rest) \<Rightarrow> (c # content, rest)))"

fun first_match :: "string \<Rightarrow> (string \<times> string \<times> string) option" where
  "first_match [] = None"
| "first_match (c # cs) =
     (if c = CHR ''['' \<and> closes_on_line cs
      then (case take_token cs of (content, rest) \<Rightarrow>
              Some ([], CHR ''['' # content @ '']'', rest))
      else (case first_match cs of
              None \<Rightarrow> None
            | Some (before, tok, rest) \<Rightarrow> Some (c # before, tok, rest)))"

lemma take_token_length: "take_token cs = (content, rest) \<Longrightarrow> length rest \<le> length cs"
  by (induction cs arbitrary: content rest) (auto split: if_splits prod.splits)

lemma first_match_length:
  "first_match t = Some (before, tok, rest) \<Longrightarrow> length rest < length t"
proof (induction t arbitrary: before)
  case Nil
  then show ?case by simp
next
  case (Cons c cs)
  then show ?case
    by (auto split: if_splits prod.splits option.splits dest: take_token_length)
qed

function split_blanks :: "string \<Rightarrow> string list" where
  "split_blanks t =
     (case first_match t of
        None \<Rightarrow> [t]
      | Some (before, tok, rest) \<Rightarrow> before # tok # split_blanks rest)"
  by pat_completeness auto
termination
  by (relation "measure length") (auto dest: first_match_length)

declare split_blanks.simps [simp del]

definition is_blank_part :: "string \<Rightarrow> bool" where
  \<comment> \<open>\<open>p.startsWith('[') && p.endsWith(']')\<close>\<close>
  "is_blank_part p = (startsWith p ''['' \<and> endsWith p '']'')"

definition hint_step :: "string option \<times> string list \<Rightarrow> string \<Rightarrow> string option \<times> string list" where
  \<comment> \<open>one turn of the loop over \<open>items[1..]\<close>\<close>
  "hint_step acc item =
     (if startsWith item ''hint:'' then (Some (drop 5 item), snd acc)
      else (fst acc, snd acc @ [item]))"

definition parse_part :: "string \<Rightarrow> BlankData" where
  \<comment> \<open>\<open>items[0]\<close> is the answer: \<open>split\<close> never returns an empty array\<close>
  "parse_part p =
     (let content = slice_inner p;
          items = split_on CHR ''|'' content
      in case items of
           [] \<Rightarrow> \<lparr> answer = [], localOptions = [], hint = None \<rparr>
         | a # later \<Rightarrow>
             (let (h, opts) = foldl hint_step (None, []) later
              in \<lparr> answer = a, localOptions = opts, hint = h \<rparr>))"

definition blanksData :: "string \<Rightarrow> BlankData list" where
  "blanksData t = map parse_part (filter is_blank_part (split_blanks t))"


text \<open>
  The token grammar in the specification's words, for comparison with the parser:
  a token is a \<open>[\<close>, then content until the matching (next) \<open>]\<close>; the content splits on
  \<open>|\<close>; the first segment is the answer, a later segment starting with \<open>hint:\<close> sets
  the hint, the other later segments are the local options in order.
\<close>

fun next_token :: "string \<Rightarrow> (string \<times> string) option" where
  "next_token [] = None"
| "next_token (c # cs) =
     (if c = CHR ''['' \<and> CHR '']'' \<in> set cs
      then Some (takeWhile (\<lambda>x. x \<noteq> CHR '']'') cs, tl (dropWhile (\<lambda>x. x \<noteq> CHR '']'') cs))
      else next_token cs)"

lemma next_token_length: "next_token t = Some (content, rest) \<Longrightarrow> length rest < length t"
proof (induction t)
  case Nil
  then show ?case by simp
next
  case (Cons c cs)
  have "length (dropWhile (\<lambda>x. x \<noteq> CHR '']'') cs) \<le> length cs"
    by (rule length_dropWhile_le)
  with Cons show ?case
    by (auto split: if_splits)
qed

function bracket_tokens :: "string \<Rightarrow> string list" where
  "bracket_tokens t =
     (case next_token t of
        None \<Rightarrow> []
      | Some (content, rest) \<Rightarrow> content # bracket_tokens rest)"
  by pat_completeness auto
termination
  by (relation "measure length") (auto dest: next_token_length)

declare bracket_tokens.simps [simp del]

definition is_hint :: "string \<Rightarrow> bool" where
  "is_hint seg = startsWith seg ''hint:''"

definition token_blank :: "string \<Rightarrow> BlankData" where
  "token_blank content =
     (case split_on CHR ''|'' content of
        [] \<Rightarrow> \<lparr> answer = [], localOptions = [], hint = None \<rparr>
      | a # later \<Rightarrow>
          \<lparr> answer = a,
            localOptions = filter (\<lambda>seg. \<not> is_hint seg) later,
            hint = (case rev (filter is_hint later) of
                      [] \<Rightarrow> None
                    | h # _ \<Rightarrow> Some (drop 5 h)) \<rparr>)"

fun well_lined :: "string \<Rightarrow> bool" where
  \<comment> \<open>no line terminator between a \<open>[\<close> and the next \<open>]\<close> behind it\<close>
  "well_lined [] = True"
| "well_lined (c # cs) =
     ((c = CHR ''['' \<and> CHR '']'' \<in> set cs \<longrightarrow> closes_on_line cs) \<and> well_lined cs)"

section \<open>Blank interaction state (\<open>hooks/useBlanks\<close>)\<close>

record BlanksState =
  inputs :: "string list"
  touched :: "bool list"
  blurred :: "bool list"
  submitted :: bool
  showAnswers :: bool

definition mount :: "string list \<Rightarrow> BlanksState" where
  \<comment> \<open>the \<open>useState\<close> initialisers, for the answers of the mounted text\<close>
  "mount answers =
     \<lparr> inputs = replicate (length answers) [],
       touched = replicate (length answers) False,
       blurred = replicate (length answers) False,
       submitted = False, showAnswers = False \<rparr>"

text \<open>
  The handlers take the index of a rendered blank, which is below the number of blanks;
  the transitions below are those with such an index (an assignment beyond the end of a
  JavaScript array would extend it, and no rendered blank has such an index).
\<close>

definition handleInputChange :: "nat \<Rightarrow> string \<Rightarrow> BlanksState \<Rightarrow> BlanksState" where
  "handleInputChange i v s =
     s\<lparr> inputs := (inputs s)[i := v], touched := (touched s)[i := True],
        blurred := (blurred s)[i := False] \<rparr>"

definition handleBlur :: "nat \<Rightarrow> BlanksState \<Rightarrow> BlanksState" where
  "handleBlur i s = s\<lparr> blurred := (blurred s)[i := True] \<rparr>"

definition checkAnswers :: "BlanksState \<Rightarrow> BlanksState" where
  "checkAnswers s = s\<lparr> submitted := True, showAnswers := False \<rparr>"

definition reset :: "string list \<Rightarrow> BlanksState \<Rightarrow> BlanksState" where
  "reset answers s =
     s\<lparr> submitted := False, showAnswers := False,
        inputs := replicate (length answers) [],
        touched := replicate (length answers) False \<rparr>"

definition revealAnswer :: "string list \<Rightarrow> nat \<Rightarrow> BlanksState \<Rightarrow> BlanksState" where
  "revealAnswer answers i s =
     s\<lparr> inputs := (inputs s)[i := answers ! i], touched := (touched s)[i := True] \<rparr>"

definition showAllAnswers :: "string list \<Rightarrow> BlanksState \<Rightarrow> BlanksState" where
  "showAllAnswers answers s = s\<lparr> inputs := answers, submitted := True, showAnswers := True \<rparr>"

datatype blank_event =
    SetValue nat string
  | Blur nat
  | CheckAll
  | RevealOne nat
  | RevealAll

fun blank_step :: "string list \<Rightarrow> BlanksState \<Rightarrow> blank_event \<Rightarrow> BlanksState option" where
  "blank_step answers s (SetValue i v) =
     (if i < length answers then Some (handleInputChange i v s) else None)"
| "blank_step answers s (Blur i) =
     (if i < length answers then Some (handleBlur i s) else None)"
| "blank_step answers s CheckAll = Some (checkAnswers s)"
| "blank_step answers s (RevealOne i) =
     (if i < length answers then Some (revealAnswer answers i s) else None)"
| "blank_step answers s RevealAll = Some (showAllAnswers answers s)"

fun blank_run :: "string list \<Rightarrow> BlanksState \<Rightarrow> blank_event list \<Rightarrow> BlanksState option" where
  "blank_run answers s [] = Some s"
| "blank_run answers s (e # es) =
     (case blank_step answers s e of None \<Rightarrow> None | Some s' \<Rightarrow> blank_run answers s' es)"





section \<open>The correctness predicate of the blank state machine\<close>









lemma showAllAnswers_idempotent:
  "showAllAnswers answers (showAllAnswers answers s) = showAllAnswers answers s"
  by (simp add: showAllAnswers_def)

lemma reset_restores_all_but_blurred:
  "reset answers s = (mount answers)\<lparr> blurred := blurred s \<rparr>"
  by (simp add: reset_def mount_def)

text \<open>
  C9 at a concrete run: after \<open>blur\<close> of the only blank, \<open>reset\<close> leaves its blurred
  flag set, so the state differs from the one a fresh mount produces.
\<close>

theorem reset_keeps_blurred:
  "blank_run [''Mann''] (mount [''Mann'']) [Blur 0] = Some ((mount [''Mann''])\<lparr> blurred := [True] \<rparr>)
   \<and> blurred (reset [''Mann''] ((mount [''Mann''])\<lparr> blurred := [True] \<rparr>)) = [True]
   \<and> blurred (mount [''Mann'']) = [False]
   \<and> reset [''Mann''] ((mount [''Mann''])\<lparr> blurred := [True] \<rparr>) \<noteq> mount [''Mann'']"
  by (simp add: mount_def handleBlur_def reset_def)



section \<open>The parser yields the bracket tokens\<close>

lemma split_on_not_Nil: "split_on sep s \<noteq> []"
  by (induction s) (auto split: list.splits)

lemma closes_on_line_mem: "closes_on_line cs \<Longrightarrow> CHR '']'' \<in> set cs"
  by (induction cs) (auto split: if_splits)

lemma take_token_closes:
  "closes_on_line cs \<Longrightarrow>
   take_token cs = (takeWhile (\<lambda>x. x \<noteq> CHR '']'') cs, tl (dropWhile (\<lambda>x. x \<noteq> CHR '']'') cs))"
  by (induction cs) (auto split: if_splits)

lemma well_lined_append: "well_lined (xs @ ys) \<Longrightarrow> well_lined ys"
  by (induction xs) auto

lemma well_lined_tl: "well_lined xs \<Longrightarrow> well_lined (tl xs)"
  by (cases xs) auto

lemma well_lined_rest:
  assumes "well_lined cs"
  shows "well_lined (tl (dropWhile (\<lambda>x. x \<noteq> CHR '']'') cs))"
proof -
  have "well_lined (takeWhile (\<lambda>x. x \<noteq> CHR '']'') cs @ dropWhile (\<lambda>x. x \<noteq> CHR '']'') cs)"
    using assms by (simp only: takeWhile_dropWhile_id)
  then have "well_lined (dropWhile (\<lambda>x. x \<noteq> CHR '']'') cs)"
    by (rule well_lined_append)
  then show ?thesis
    by (rule well_lined_tl)
qed

lemma first_match_mem: "first_match t = Some (b, tok, r) \<Longrightarrow> CHR '']'' \<in> set t"
  by (induction t arbitrary: b) (auto split: if_splits prod.splits option.splits dest: closes_on_line_mem)

definition wrap :: "string \<Rightarrow> string" where
  "wrap c = CHR ''['' # c @ '']''"

lemma first_match_next_token:
  "well_lined t \<Longrightarrow>
   (case first_match t of
      None \<Rightarrow> next_token t = None
    | Some (b, tok, r) \<Rightarrow>
        (\<exists>c. tok = wrap c \<and> next_token t = Some (c, r)) \<and> CHR ''['' \<notin> set b \<and> well_lined r)"
proof (induction t)
  case Nil
  then show ?case by simp
next
  case (Cons c cs)
  show ?case
  proof (cases "c = CHR ''['' \<and> closes_on_line cs")
    case True
    then show ?thesis
      using Cons.prems
      by (auto simp: take_token_closes closes_on_line_mem wrap_def well_lined_rest)
  next
    case False
    from Cons have IH: "case first_match cs of
      None \<Rightarrow> next_token cs = None
    | Some (b, tok, r) \<Rightarrow>
        (\<exists>c. tok = wrap c \<and> next_token cs = Some (c, r)) \<and> CHR ''['' \<notin> set b \<and> well_lined r"
      by simp
    show ?thesis
    proof (cases "c = CHR ''[''")
      case True
      with False Cons.prems have no: "CHR '']'' \<notin> set cs"
        by auto
      then have "first_match cs = None"
        using first_match_mem by (cases "first_match cs") auto
      with IH True False no show ?thesis
        by simp
    next
      case c: False
      with False IH show ?thesis
        by (auto split: option.splits)
    qed
  qed
qed

lemma not_blank_part_no_open: "CHR ''['' \<notin> set b \<Longrightarrow> \<not> is_blank_part b"
  by (cases b) (auto simp: is_blank_part_def startsWith_def)

lemma is_blank_part_wrap: "is_blank_part (wrap c)"
  by (simp add: is_blank_part_def wrap_def startsWith_def endsWith_def)

lemma closes_on_line_last:
  "cs \<noteq> [] \<Longrightarrow> last cs = CHR '']'' \<Longrightarrow> well_lined (CHR ''['' # cs) \<Longrightarrow> closes_on_line cs"
  using last_in_set [of cs] by auto

lemma is_blank_part_shape:
  "is_blank_part t \<Longrightarrow> \<exists>cs. t = CHR ''['' # cs \<and> cs \<noteq> [] \<and> last cs = CHR '']''"
proof -
  assume a: "is_blank_part t"
  then obtain cs where t: "t = CHR ''['' # cs"
    by (cases t) (auto simp: is_blank_part_def startsWith_def)
  from a t have "drop (length cs) (CHR ''['' # cs) = '']''"
    by (simp add: is_blank_part_def endsWith_def)
  then have "cs \<noteq> [] \<and> last cs = CHR '']''"
    by (cases cs rule: rev_cases) auto
  with t show ?thesis by blast
qed

lemma no_match_not_blank_part:
  assumes "well_lined t" "first_match t = None"
  shows "\<not> is_blank_part t"
proof
  assume "is_blank_part t"
  then obtain cs where t: "t = CHR ''['' # cs" "cs \<noteq> []" "last cs = CHR '']''"
    using is_blank_part_shape by blast
  with assms(1) have "closes_on_line cs"
    using closes_on_line_last by blast
  with t assms(2) show False
    by (auto split: prod.splits)
qed

lemma blank_parts_are_tokens:
  "well_lined t \<Longrightarrow> filter is_blank_part (split_blanks t) = map wrap (bracket_tokens t)"
proof (induction t rule: split_blanks.induct)
  case (1 t)
  note fm = first_match_next_token [OF "1.prems"]
  show ?case
  proof (cases "first_match t")
    case None
    with fm have "next_token t = None" by simp
    with None "1.prems" show ?thesis
      by (simp add: split_blanks.simps [of t] bracket_tokens.simps [of t] no_match_not_blank_part)
  next
    case (Some m)
    obtain b tok r where m: "m = (b, tok, r)" by (cases m)
    with Some fm obtain c where c: "tok = wrap c" "next_token t = Some (c, r)"
      and b: "CHR ''['' \<notin> set b" and r: "well_lined r"
      by auto
    from "1.IH" [OF Some [unfolded m] refl refl r]
    have "filter is_blank_part (split_blanks r) = map wrap (bracket_tokens r)" .
    with Some m c b show ?thesis
      by (simp add: split_blanks.simps [of t] bracket_tokens.simps [of t]
          not_blank_part_no_open is_blank_part_wrap)
  qed
qed

lemma foldl_hint_step:
  "foldl hint_step (h, opts) xs =
     ((case rev (filter is_hint xs) of [] \<Rightarrow> h | x # _ \<Rightarrow> Some (drop 5 x)),
      opts @ filter (\<lambda>seg. \<not> is_hint seg) xs)"
proof (induction xs arbitrary: h opts)
  case Nil
  then show ?case by simp
next
  case (Cons x xs)
  show ?case
  proof (cases "is_hint x")
    case True
    then have "hint_step (h, opts) x = (Some (drop 5 x), opts)"
      by (simp add: hint_step_def is_hint_def)
    with True show ?thesis
      by (simp add: Cons split: list.splits)
  next
    case False
    then have "hint_step (h, opts) x = (h, opts @ [x])"
      by (simp add: hint_step_def is_hint_def)
    with False show ?thesis
      by (simp add: Cons)
  qed
qed

lemma slice_inner_wrap: "slice_inner (wrap c) = c"
  by (simp add: slice_inner_def wrap_def)

lemma parse_part_wrap: "parse_part (wrap c) = token_blank c"
  by (simp add: parse_part_def token_blank_def slice_inner_wrap Let_def foldl_hint_step
      split: list.splits)


lemma no_close_well_lined: "CHR '']'' \<notin> set t \<Longrightarrow> well_lined t"
  by (induction t) auto

lemma no_close_no_token: "CHR '']'' \<notin> set t \<Longrightarrow> next_token t = None"
  by (induction t) auto

text \<open>
  C3 (as the code has it). For every input text in which no line terminator stands
  between a \<open>[\<close> and the next \<open>]\<close> behind it, the parser produces exactly one Blank per
  bracket token, in document order: the content between the brackets is split on \<open>|\<close>,
  the first segment is the answer, the last later segment starting with \<open>hint:\<close> gives the
  hint (the text behind \<open>hint:\<close>), and the other later segments are the local options, in
  order and with duplicates. A text without any \<open>]\<close> produces no blank.
\<close>

theorem blanksData_bracket_tokens:
  "(well_lined t \<longrightarrow> blanksData t = map token_blank (bracket_tokens t))
   \<and> (CHR '']'' \<notin> set t \<longrightarrow> blanksData t = [])"
proof -
  have a: "blanksData t = map token_blank (bracket_tokens t)" if "well_lined t"
    using blank_parts_are_tokens [OF that]
    by (simp add: blanksData_def parse_part_wrap cong: map_cong)
  have "blanksData t = []" if "CHR '']'' \<notin> set t"
    using a [OF no_close_well_lined [OF that]] no_close_no_token [OF that]
    by (simp add: bracket_tokens.simps [of t])
  with a show ?thesis
    by blast
qed

definition mann_text :: string where
  "mann_text = ''Der [Mann|hint:male adult] geht.''"

definition options_text :: string where
  "options_text = ''[der|die|hint:article|das|die] Hund [] x [y''"

lemma mann_text_well_lined: "well_lined mann_text"
  by code_simp

lemma mann_text_tokens:
  "map token_blank (bracket_tokens mann_text) =
     [\<lparr> answer = ''Mann'', localOptions = [], hint = Some ''male adult'' \<rparr>]"
  by code_simp

lemma options_text_well_lined: "well_lined options_text"
  by code_simp

lemma options_text_tokens:
  "map token_blank (bracket_tokens options_text) =
     [\<lparr> answer = ''der'', localOptions = [''die'', ''das'', ''die''], hint = Some ''article'' \<rparr>,
      \<lparr> answer = [], localOptions = [], hint = None \<rparr>]"
  by code_simp

theorem blanksData_bracket_tokens_witness:
  "blanksData mann_text =
     [\<lparr> answer = ''Mann'', localOptions = [], hint = Some ''male adult'' \<rparr>]
   \<and> blanksData options_text =
     [\<lparr> answer = ''der'', localOptions = [''die'', ''das'', ''die''], hint = Some ''article'' \<rparr>,
      \<lparr> answer = [], localOptions = [], hint = None \<rparr>]
   \<and> blanksData ''Der [Mann geht.'' = []"
proof -
  have "blanksData mann_text = map token_blank (bracket_tokens mann_text)"
    using blanksData_bracket_tokens [of mann_text] mann_text_well_lined by blast
  moreover have "blanksData options_text = map token_blank (bracket_tokens options_text)"
    using blanksData_bracket_tokens [of options_text] options_text_well_lined by blast
  moreover have "CHR '']'' \<notin> set ''Der [Mann geht.''"
    by simp
  then have "blanksData ''Der [Mann geht.'' = []"
    using blanksData_bracket_tokens [of "''Der [Mann geht.''"] by blast
  ultimately show ?thesis
    by (simp only: mann_text_tokens options_text_tokens)
qed

definition broken_text :: string where
  "broken_text = ''x[a'' @ [CHR 0x0A] @ ''b]''"

text \<open>
  C3 as stated fails where a line terminator stands inside the brackets: \<open>x[a\<newline>b]\<close>
  holds one bracket token and yields no blank (the pattern's \<open>.\<close> does not match the
  line terminator), while the same token as the whole text, \<open>[a\<newline>b]\<close>, yields one,
  because the unsplit text itself starts with \<open>[\<close> and ends with \<open>]\<close>.
\<close>

theorem blanksData_line_break_counterexample:
  "length (bracket_tokens broken_text) = 1
   \<and> blanksData broken_text = []
   \<and> blanksData (tl broken_text) =
       [\<lparr> answer = ''a'' @ [CHR 0x0A] @ ''b'', localOptions = [], hint = None \<rparr>]"
  by code_simp



section \<open>Exercise identity (\<open>utils/exerciseId\<close>, \<open>utils/pathUtils\<close>)\<close>

definition digit_char :: "int \<Rightarrow> char" where
  "digit_char d = char_of (48 + d)"

function decimal :: "int \<Rightarrow> string" where
  \<comment> \<open>\<open>n.toString()\<close> for an integer \<open>n \<ge> 0\<close>\<close>
  "decimal n = (if n < 10 then [digit_char n] else decimal (n div 10) @ [digit_char (n mod 10)])"
  by pat_completeness auto
termination
  by (relation "measure nat") auto

declare decimal.simps [simp del]

definition normalizePath :: "string \<Rightarrow> string \<Rightarrow> string" where
  \<comment> \<open>the first argument is \<open>import.meta.env.BASE_URL\<close>, fixed at build time\<close>
  "normalizePath base p =
     (if base \<noteq> [] \<and> startsWith base ''/'' \<and> base \<noteq> ''/'' \<and> startsWith p base
      then (let relative = drop (length base) p
            in if startsWith relative ''/'' then relative else ''/'' @ relative)
      else p)"

fun hash_loop :: "32 word \<Rightarrow> string \<Rightarrow> 32 word" where
  \<comment> \<open>\<open>hash = ((hash << 5) - hash) + char; hash = hash & hash\<close>: the sum is exact in
      double arithmetic and \<open>&\<close> takes it back to 32 bits, so each turn is the 32-bit
      wrap-around of \<open>32 * hash - hash + char\<close>\<close>
  "hash_loop h [] = h"
| "hash_loop h (c # cs) = hash_loop ((push_bit 5 h - h) + of_nat (of_char c)) cs"

definition simpleHash :: "string \<Rightarrow> string" where
  \<comment> \<open>\<open>Math.abs(hash).toString()\<close>\<close>
  "simpleHash str = decimal \<bar>sint (hash_loop 0 str)\<bar>"

definition generateStableExerciseId :: "string \<Rightarrow> string \<Rightarrow> string \<Rightarrow> string \<Rightarrow> string" where
  "generateStableExerciseId base lp exerciseType content =
     normalizePath base lp @ '':'' @ exerciseType @ '':'' @ simpleHash content"

section \<open>Fill-in-the-blank drag mode (\<open>exercises/FillBlanks\<close>)\<close>

record DragItem =
  item_id :: string
  item_text :: string

definition first_occurrences :: "'a list \<Rightarrow> 'a list" where
  \<comment> \<open>the keys of a \<open>Map\<close> or \<open>Set\<close> filled from a list: insertion order, first occurrence\<close>
  "first_occurrences xs = rev (remdups (rev xs))"

definition merged_texts :: "string list \<Rightarrow> string list \<Rightarrow> string list" where
  \<comment> \<open>every text as often as it occurs among the answers or among the options, whichever
      is more\<close>
  "merged_texts answers opts =
     concat (map (\<lambda>key. replicate (max (count_list answers key) (count_list opts key)) key)
               (first_occurrences (answers @ opts)))"

definition make_item_id :: "nat \<Rightarrow> string \<Rightarrow> string" where
  \<comment> \<open>\<open>`item-${i}-${Math.random().toString(36).substr(2, 9)}`\<close>, the random part given\<close>
  "make_item_id i r = ''item-'' @ decimal (int i) @ ''-'' @ r"

definition allItems :: "string list \<Rightarrow> string list \<Rightarrow> (nat \<Rightarrow> string) \<Rightarrow> DragItem list" where
  "allItems answers opts rnd =
     map (\<lambda>(i, t). \<lparr> item_id = make_item_id i (rnd i), item_text = t \<rparr>)
       (enumerate 0 (merged_texts answers opts))"

definition dropKey :: "nat \<Rightarrow> string" where
  \<comment> \<open>\<open>`drop-${index}`\<close>\<close>
  "dropKey i = ''drop-'' @ decimal (int i)"

record DragState =
  dragItems :: "string list"
  droppedItems :: "(string \<times> string) list"
  selectedId :: "string option"
  activeDropMenu :: "string option"

text \<open>
  \<open>droppedItems\<close> is an object used as a dictionary from drop-zone id to item id; its keys
  are kept in insertion order (\<open>Object.keys\<close>), so it is an association list with
  \<open>AList.update\<close> for an assignment and \<open>AList.delete\<close> for \<open>delete\<close>.
  A string or \<open>undefined\<close>/\<open>null\<close> used as a condition is true for a non-empty string.
\<close>

definition truthy :: "string option \<Rightarrow> string option" where
  \<comment> \<open>the value when it counts as true, \<open>None\<close> when it counts as false\<close>
  "truthy v = (case v of None \<Rightarrow> None | Some str \<Rightarrow> if str = [] then None else Some str)"

definition key_of_item :: "(string \<times> string) list \<Rightarrow> string \<Rightarrow> string option" where
  \<comment> \<open>\<open>Object.keys(droppedItems).find(key => droppedItems[key] === id)\<close>\<close>
  "key_of_item dropped itemId = map_option fst (find (\<lambda>entry. snd entry = itemId) dropped)"

definition place_item :: "string \<Rightarrow> string \<Rightarrow> DragState \<Rightarrow> DragState" where
  \<comment> \<open>the two functional updates that \<open>handleDragEnd\<close> and \<open>handleDropZoneClick\<close> share\<close>
  "place_item itemId target s =
     (let sourceDropZoneId = key_of_item (droppedItems s) itemId;
          isFromBank = itemId \<in> set (dragItems s);
          itemInTargetZone = map_of (droppedItems s) target;
          set_target = AList.update target itemId (droppedItems s);
          newDropped = (case truthy sourceDropZoneId of
                          Some src \<Rightarrow> AList.delete src set_target
                        | None \<Rightarrow> set_target);
          without = (if isFromBank then filter (\<lambda>item. item \<noteq> itemId) (dragItems s)
                     else dragItems s);
          newDragItems = (case truthy itemInTargetZone of
                            Some old \<Rightarrow> without @ [old]
                          | None \<Rightarrow> without)
      in s\<lparr> droppedItems := newDropped, dragItems := newDragItems \<rparr>)"

definition unplace_from :: "string \<Rightarrow> string \<Rightarrow> DragState \<Rightarrow> DragState" where
  "unplace_from zone itemId s =
     s\<lparr> droppedItems := AList.delete zone (droppedItems s),
        dragItems := dragItems s @ [itemId] \<rparr>"

definition handleDragEnd :: "string \<Rightarrow> string option \<Rightarrow> DragState \<Rightarrow> DragState" where
  "handleDragEnd activeId over s =
     (let sourceDropZoneId = key_of_item (droppedItems s) activeId
      in case over of
           Some targetDropZoneId \<Rightarrow>
             if sourceDropZoneId = Some targetDropZoneId then s
             else (place_item activeId targetDropZoneId s)\<lparr> selectedId := None \<rparr>
         | None \<Rightarrow>
             (case truthy sourceDropZoneId of
                Some src \<Rightarrow> (unplace_from src activeId s)\<lparr> selectedId := None \<rparr>
              | None \<Rightarrow> s\<lparr> selectedId := None \<rparr>))"

definition handleWordClick :: "bool \<Rightarrow> string \<Rightarrow> DragState \<Rightarrow> DragState" where
  \<comment> \<open>the first argument is the hook's \<open>submitted\<close>\<close>
  "handleWordClick is_submitted itemId s =
     (if is_submitted then s
      else s\<lparr> selectedId := (if selectedId s = Some itemId then None else Some itemId),
              activeDropMenu := None \<rparr>)"

definition handleDropZoneClick :: "bool \<Rightarrow> string \<Rightarrow> DragState \<Rightarrow> DragState" where
  "handleDropZoneClick is_submitted dropId s =
     (if is_submitted then s
      else let currentItemId = map_of (droppedItems s) dropId
           in case truthy (selectedId s) of
                Some sel \<Rightarrow>
                  if currentItemId = Some sel then s\<lparr> selectedId := None \<rparr>
                  else (place_item sel dropId s)\<lparr> selectedId := None \<rparr>
              | None \<Rightarrow>
                  (case truthy currentItemId of
                     Some cur \<Rightarrow> unplace_from dropId cur s
                   | None \<Rightarrow>
                       s\<lparr> activeDropMenu :=
                            (if activeDropMenu s = Some dropId then None else Some dropId) \<rparr>))"

definition handleMenuOptionClick :: "string \<Rightarrow> string \<Rightarrow> DragState \<Rightarrow> DragState" where
  "handleMenuOptionClick dropId itemId s =
     s\<lparr> droppedItems := AList.update dropId itemId (droppedItems s),
        dragItems := filter (\<lambda>item. item \<noteq> itemId) (dragItems s),
        activeDropMenu := None \<rparr>"

definition getItemText :: "DragItem list \<Rightarrow> string \<Rightarrow> string" where
  \<comment> \<open>\<open>allItems.find(i => i.id === id)?.text || ''\<close>\<close>
  "getItemText items itemId =
     (case find (\<lambda>i. item_id i = itemId) items of None \<Rightarrow> [] | Some i \<Rightarrow> item_text i)"

definition dragAllCorrect :: "DragItem list \<Rightarrow> string list \<Rightarrow> DragState \<Rightarrow> bool" where
  \<comment> \<open>the drag branch of \<open>allCorrect\<close>:
      \<open>answers.every((ans, idx) => droppedId && getItemText(droppedId) === ans)\<close>\<close>
  "dragAllCorrect items answers s =
     list_all (\<lambda>(idx, ans).
         case truthy (map_of (droppedItems s) (dropKey idx)) of
           Some droppedId \<Rightarrow> getItemText items droppedId = ans
         | None \<Rightarrow> False)
       (enumerate 0 answers)"


record FillBlanksInstance =
  exerciseIdRef :: string
  items_of :: "DragItem list"
  drag_of :: DragState

definition fillBlanks_mount ::
  "string \<Rightarrow> string \<Rightarrow> string \<Rightarrow> string list \<Rightarrow> string list \<Rightarrow> (nat \<Rightarrow> string) \<Rightarrow>
   (string list \<Rightarrow> string list) \<Rightarrow> FillBlanksInstance" where
  \<comment> \<open>what a mount of \<open>FillBlanks\<close> computes from the build's base URL,
      \<open>location.pathname\<close>, the text of the children, the answers of the blanks and the
      \<open>options\<close> prop; \<open>rnd\<close> gives the random parts of the item ids and \<open>shuffle\<close> is the
      outcome of \<open>.sort(() => Math.random() - 0.5)\<close>\<close>
  "fillBlanks_mount base pathname childrenText answers opts rnd shuffle =
     (let its = allItems answers opts rnd
      in \<lparr> exerciseIdRef = generateStableExerciseId base pathname ''FillBlanks'' childrenText,
           items_of = its,
           drag_of = \<lparr> dragItems = shuffle (map item_id its), droppedItems = [],
                       selectedId = None, activeDropMenu = None \<rparr> \<rparr>)"


text \<open>
  The events the rendered exercise can deliver while it is not submitted (once it is, the
  click handlers return at once, the bank is not rendered and the placed words are not
  draggable): a drag of a rendered word, from the bank or from a drop zone, that ends over
  the drop zone of a blank or over nothing; a click on a word of the bank; a click on the
  drop zone of a blank; a click on a word in the menu of the drop zone whose menu is open.
\<close>

datatype drag_event =
    DragEnd string "nat option"
  | WordClick string
  | DropZoneClick nat
  | MenuOptionClick string

fun deliverable :: "nat \<Rightarrow> DragState \<Rightarrow> drag_event \<Rightarrow> bool" where
  "deliverable n s (DragEnd activeId over) =
     ((activeId \<in> set (dragItems s) \<or> activeId \<in> snd ` set (droppedItems s)) \<and>
      (case over of None \<Rightarrow> True | Some idx \<Rightarrow> idx < n))"
| "deliverable n s (WordClick itemId) = (itemId \<in> set (dragItems s))"
| "deliverable n s (DropZoneClick idx) = (idx < n)"
| "deliverable n s (MenuOptionClick itemId) =
     (activeDropMenu s \<noteq> None \<and> itemId \<in> set (dragItems s))"

fun drag_step :: "DragState \<Rightarrow> drag_event \<Rightarrow> DragState" where
  "drag_step s (DragEnd activeId over) = handleDragEnd activeId (map_option dropKey over) s"
| "drag_step s (WordClick itemId) = handleWordClick False itemId s"
| "drag_step s (DropZoneClick idx) = handleDropZoneClick False (dropKey idx) s"
| "drag_step s (MenuOptionClick itemId) =
     (case activeDropMenu s of
        None \<Rightarrow> s
      | Some dropId \<Rightarrow> handleMenuOptionClick dropId itemId s)"

fun drag_run :: "nat \<Rightarrow> DragState \<Rightarrow> drag_event list \<Rightarrow> DragState option" where
  "drag_run n s [] = Some s"
| "drag_run n s (e # es) =
     (if deliverable n s e then drag_run n (drag_step s e) es else None)"

definition placement_inv :: "DragState \<Rightarrow> bool" where
  "placement_inv s =
     (distinct (dragItems s) \<and> distinct (map fst (droppedItems s)) \<and>
      (\<forall>k k' v. map_of (droppedItems s) k = Some v \<and> map_of (droppedItems s) k' = Some v
         \<longrightarrow> k = k') \<and>
      (\<forall>k v. map_of (droppedItems s) k = Some v \<longrightarrow> v \<notin> set (dragItems s) \<and> v \<noteq> [] \<and> k \<noteq> []) \<and>
      [] \<notin> set (dragItems s) \<and> selectedId s \<noteq> Some [] \<and> activeDropMenu s \<noteq> Some [])"

section \<open>The exercise id is stable\<close>

lemma hash_loop_horner:
  "hash_loop h cs = h * 31 ^ length cs + horner_sum (\<lambda>ch. of_nat (of_char ch)) 31 (rev cs)"
proof (induction cs arbitrary: h)
  case Nil
  then show ?case by simp
next
  case (Cons c cs)
  have "push_bit 5 h - h = 31 * h"
    by (simp add: push_bit_eq_mult)
  then show ?case
    by (simp add: Cons horner_sum_append algebra_simps)
qed

lemma simpleHash_polynomial:
  "simpleHash c = decimal \<bar>sint (horner_sum (\<lambda>ch. of_nat (of_char ch)) (31 :: 32 word) (rev c))\<bar>"
  by (simp add: simpleHash_def hash_loop_horner)

text \<open>
  The exercise id is a function of the lesson path, the exercise type and the content
  fingerprint alone: it is \<open>normalizePath lessonPath\<close>, \<open>:\<close>, the type, \<open>:\<close> and the
  hash of the content, and the hash is the decimal numeral of the absolute value of the
  32-bit polynomial \<open>\<Sum> c\<^sub>i * 31 ^ (n - 1 - i)\<close> of the content's code units. A
  fill-in-the-blank exercise passes the text of its children as the content, so two of its
  mounts get the same id whatever random item ids and bank order they draw.
\<close>

theorem exerciseId_deterministic:
  "generateStableExerciseId base lp ty c = normalizePath base lp @ '':'' @ ty @ '':'' @ simpleHash c
   \<and> simpleHash c =
       decimal \<bar>sint (horner_sum (\<lambda>ch. of_nat (of_char ch)) (31 :: 32 word) (rev c))\<bar>
   \<and> exerciseIdRef (fillBlanks_mount base lp c answers opts rnd1 shuffle1) =
       exerciseIdRef (fillBlanks_mount base lp c answers opts rnd2 shuffle2)
   \<and> exerciseIdRef (fillBlanks_mount base lp c answers opts rnd1 shuffle1) =
       generateStableExerciseId base lp ''FillBlanks'' c"
  using simpleHash_polynomial [of c]
  by (simp add: generateStableExerciseId_def fillBlanks_mount_def Let_def)

lemma hash_1_3: "simpleHash ''1,3'' = ''48504''"
  by code_simp

lemma hash_mann: "simpleHash ''Der [Mann|hint:male adult] geht.'' = ''115235165''"
  by code_simp

lemma normalizePath_english: "normalizePath ''/English/'' ''/English/A1/Lesson1'' = ''/A1/Lesson1''"
  by code_simp

lemma normalizePath_root: "normalizePath ''/'' ''/A1/Lesson1'' = ''/A1/Lesson1''"
  by code_simp

theorem exerciseId_deterministic_witness:
  "generateStableExerciseId ''/English/'' ''/English/A1/Lesson1'' ''Quiz'' ''1,3'' =
     ''/A1/Lesson1:Quiz:48504''
   \<and> generateStableExerciseId ''/'' ''/A1/Lesson1'' ''Quiz'' ''1,3'' = ''/A1/Lesson1:Quiz:48504''
   \<and> exerciseIdRef (fillBlanks_mount ''/'' ''/A1/Lesson1'' ''Der [Mann|hint:male adult] geht.''
        [''Mann''] [''Frau''] (\<lambda>i. ''k3j9x'') id) =
      exerciseIdRef (fillBlanks_mount ''/'' ''/A1/Lesson1'' ''Der [Mann|hint:male adult] geht.''
        [''Mann''] [''Frau''] (\<lambda>i. ''zz0q1'') rev)"
proof -
  have "generateStableExerciseId ''/English/'' ''/English/A1/Lesson1'' ''Quiz'' ''1,3'' =
     ''/A1/Lesson1:Quiz:48504''"
    using exerciseId_deterministic [of "''/English/''" "''/English/A1/Lesson1''" "''Quiz''" "''1,3''"]
    by (simp add: normalizePath_english hash_1_3)
  moreover have "generateStableExerciseId ''/'' ''/A1/Lesson1'' ''Quiz'' ''1,3'' =
     ''/A1/Lesson1:Quiz:48504''"
    using exerciseId_deterministic [of "''/''" "''/A1/Lesson1''" "''Quiz''" "''1,3''"]
    by (simp add: normalizePath_root hash_1_3)
  moreover have "exerciseIdRef (fillBlanks_mount ''/'' ''/A1/Lesson1'' ''Der [Mann|hint:male adult] geht.''
        [''Mann''] [''Frau''] (\<lambda>i. ''k3j9x'') id) =
      exerciseIdRef (fillBlanks_mount ''/'' ''/A1/Lesson1'' ''Der [Mann|hint:male adult] geht.''
        [''Mann''] [''Frau''] (\<lambda>i. ''zz0q1'') rev)"
    using exerciseId_deterministic by blast
  ultimately show ?thesis
    by blast
qed



section \<open>Ordering (\<open>exercises/Ordering\<close>)\<close>

text \<open>
  The ordering exercise keeps its items as objects with an \<open>id\<close> and a \<open>text\<close>, the shape
  of the fill-in-the-blank items. On mount one effect fills the state: in the vertical
  layout \<open>items\<close> with the shuffled \<open>correctOrder\<close>, in the horizontal layout \<open>bankItems\<close>
  with the shuffled \<open>options || correctOrder\<close>, where \<open>items\<close> stays empty. A second effect,
  run on mount and again whenever \<open>items\<close> changes, stores the exercise id of
  \<open>JSON.stringify(items)\<close>; \<open>Ordering_mount\<close> is the state once the effects of a mount have
  run. \<open>JSON.stringify\<close> of such an array writes each object as
  \<open>{"id":\<dots>,"text":\<dots>}\<close> with its strings quoted as ECMAScript's \<open>QuoteJSONString\<close> does.
\<close>

datatype direction = vertical | horizontal

record OrderingState =
  ord_items :: "DragItem list"
  ord_bankItems :: "DragItem list"
  ord_answerItems :: "DragItem list"
  ord_exerciseIdRef :: string

definition hex_digit :: "nat \<Rightarrow> char" where
  "hex_digit d = (if d < 10 then char_of (48 + d) else char_of (87 + d))"

definition QuoteJSONChar :: "char \<Rightarrow> string" where
  "QuoteJSONChar c =
     (if c = CHR 0x08 then [CHR 0x5C, CHR ''b'']
      else if c = CHR 0x09 then [CHR 0x5C, CHR ''t'']
      else if c = CHR 0x0A then [CHR 0x5C, CHR ''n'']
      else if c = CHR 0x0C then [CHR 0x5C, CHR ''f'']
      else if c = CHR 0x0D then [CHR 0x5C, CHR ''r'']
      else if c = CHR 0x22 then [CHR 0x5C, CHR 0x22]
      else if c = CHR 0x5C then [CHR 0x5C, CHR 0x5C]
      else if (of_char c :: nat) < 32
      then [CHR 0x5C, CHR ''u'', CHR ''0'', CHR ''0'',
            hex_digit (of_char c div 16), hex_digit (of_char c mod 16)]
      else [c])"

definition QuoteJSONString :: "string \<Rightarrow> string" where
  "QuoteJSONString s = [CHR 0x22] @ concat (map QuoteJSONChar s) @ [CHR 0x22]"

fun join :: "string \<Rightarrow> string list \<Rightarrow> string" where
  "join sep [] = []"
| "join sep [x] = x"
| "join sep (x # y # ys) = x @ sep @ join sep (y # ys)"

definition stringify_item :: "DragItem \<Rightarrow> string" where
  "stringify_item i =
     ''{'' @ QuoteJSONString ''id'' @ '':'' @ QuoteJSONString (item_id i) @ '','' @
     QuoteJSONString ''text'' @ '':'' @ QuoteJSONString (item_text i) @ ''}''"

definition JSON_stringify :: "DragItem list \<Rightarrow> string" where
  "JSON_stringify xs = ''['' @ join '','' (map stringify_item xs) @ '']''"

definition ordering_initial :: OrderingState where
  "ordering_initial =
     \<lparr> ord_items = [], ord_bankItems = [], ord_answerItems = [], ord_exerciseIdRef = [] \<rparr>"

definition ordering_init_effect ::
  "direction \<Rightarrow> string list \<Rightarrow> string list option \<Rightarrow> (nat \<Rightarrow> string) \<Rightarrow>
   (DragItem list \<Rightarrow> DragItem list) \<Rightarrow> OrderingState \<Rightarrow> OrderingState" where
  "ordering_init_effect dir correctOrder options rnd shuffle s =
     (case dir of
        vertical \<Rightarrow>
          s\<lparr> ord_items := shuffle
               (map (\<lambda>(idx, t). \<lparr> item_id = ''item-'' @ decimal (int idx), item_text = t \<rparr>)
                  (enumerate 0 correctOrder)) \<rparr>
      | horizontal \<Rightarrow>
          (let sourceList = (case options of Some os \<Rightarrow> os | None \<Rightarrow> correctOrder)
           in s\<lparr> ord_bankItems := shuffle
                  (map (\<lambda>(idx, t). \<lparr> item_id = ''bank-'' @ decimal (int idx) @ ''-'' @ rnd idx,
                                      item_text = t \<rparr>)
                     (enumerate 0 sourceList)),
                 ord_answerItems := [] \<rparr>))"

definition ordering_id_effect :: "string \<Rightarrow> string \<Rightarrow> OrderingState \<Rightarrow> OrderingState" where
  "ordering_id_effect base pathname s =
     s\<lparr> ord_exerciseIdRef :=
          generateStableExerciseId base pathname ''Ordering'' (JSON_stringify (ord_items s)) \<rparr>"

definition Ordering_mount ::
  "string \<Rightarrow> string \<Rightarrow> direction \<Rightarrow> string list \<Rightarrow> string list option \<Rightarrow> (nat \<Rightarrow> string) \<Rightarrow>
   (DragItem list \<Rightarrow> DragItem list) \<Rightarrow> OrderingState" where
  "Ordering_mount base pathname dir correctOrder options rnd shuffle =
     ordering_id_effect base pathname
       (ordering_init_effect dir correctOrder options rnd shuffle
          (ordering_id_effect base pathname ordering_initial))"

lemma stringify_example:
  \<open>JSON_stringify [\<lparr> item_id = ''item-0'', item_text = ''eins'' \<rparr>,
                   \<lparr> item_id = ''item-1'', item_text = ''zwei'' \<rparr>] =
   ''[{"id":"item-0","text":"eins"},{"id":"item-1","text":"zwei"}]''\<close>
  by code_simp

lemma quote_example:
  "QuoteJSONString [CHR ''a'', CHR 0x22, CHR 0x0A, CHR 0x01, CHR 0x1F, CHR 0x5C] =
   [CHR 0x22, CHR ''a'', CHR 0x5C, CHR 0x22, CHR 0x5C, CHR ''n'', CHR 0x5C, CHR ''u'', CHR ''0'',
    CHR ''0'', CHR ''0'', CHR ''1'', CHR 0x5C, CHR ''u'', CHR ''0'', CHR ''0'', CHR ''1'', CHR ''f'',
    CHR 0x5C, CHR 0x5C, CHR 0x22]"
  by code_simp

text \<open>
  C6 at a concrete exercise: the same vertical ordering exercise (lesson \<open>/A1/Lesson1\<close>,
  items \<open>eins\<close>, \<open>zwei\<close>) is mounted twice. When the shuffle leaves the two items in place
  the stored exercise id ends in \<open>201724355\<close>, when it swaps them the id ends in
  \<open>229875715\<close>: the content that is hashed is the shuffled state, not the authored list,
  so the id of the same exercise differs from one mount to the next.
\<close>

theorem ordering_exerciseId_follows_shuffle:
  "ord_exerciseIdRef (Ordering_mount ''/'' ''/A1/Lesson1'' vertical [''eins'', ''zwei''] None
      (\<lambda>i. ''r'') id) = ''/A1/Lesson1:Ordering:201724355''
   \<and> ord_exerciseIdRef (Ordering_mount ''/'' ''/A1/Lesson1'' vertical [''eins'', ''zwei''] None
      (\<lambda>i. ''r'') rev) = ''/A1/Lesson1:Ordering:229875715''
   \<and> ord_exerciseIdRef (Ordering_mount ''/'' ''/A1/Lesson1'' vertical [''eins'', ''zwei''] None
        (\<lambda>i. ''r'') id) \<noteq>
     ord_exerciseIdRef (Ordering_mount ''/'' ''/A1/Lesson1'' vertical [''eins'', ''zwei''] None
        (\<lambda>i. ''r'') rev)"
  by code_simp



section \<open>Item ids are distinct and non-empty\<close>

lemma of_char_digit: "0 \<le> d \<Longrightarrow> d < 10 \<Longrightarrow> (of_char (digit_char d) :: int) = 48 + d"
  by (simp add: digit_char_def)

definition undecimal :: "string \<Rightarrow> int" where
  \<comment> \<open>the value of a decimal numeral, to show that \<open>decimal\<close> is injective\<close>
  "undecimal ds = foldl (\<lambda>a c. 10 * a + (of_char c - 48)) 0 ds"

lemma undecimal_decimal: "0 \<le> n \<Longrightarrow> undecimal (decimal n) = n"
proof (induction n rule: decimal.induct)
  case (1 n)
  show ?case
  proof (cases "n < 10")
    case True
    with "1.prems" show ?thesis
      by (simp add: decimal.simps [of n] undecimal_def of_char_digit)
  next
    case False
    with "1.prems" have "undecimal (decimal (n div 10)) = n div 10"
      using "1.IH" by simp
    moreover have "(of_char (digit_char (n mod 10)) :: int) = 48 + n mod 10"
      by (rule of_char_digit) simp_all
    ultimately show ?thesis
      using False by (simp add: decimal.simps [of n] undecimal_def)
  qed
qed

lemma decimal_inj: "0 \<le> m \<Longrightarrow> 0 \<le> n \<Longrightarrow> decimal m = decimal n \<Longrightarrow> m = n"
  by (metis undecimal_decimal)

lemma digit_char_not_dash: "0 \<le> d \<Longrightarrow> d < 10 \<Longrightarrow> CHR ''-'' \<noteq> digit_char d"
proof
  assume d: "0 \<le> d" "d < 10" and "CHR ''-'' = digit_char d"
  then have "(of_char (digit_char d) :: int) = of_char CHR ''-''" by simp
  with d show False by (simp add: of_char_digit)
qed

lemma decimal_no_dash: "0 \<le> n \<Longrightarrow> CHR ''-'' \<notin> set (decimal n)"
proof (induction n rule: decimal.induct)
  case (1 n)
  show ?case
  proof (cases "n < 10")
    case True
    with "1.prems" show ?thesis
      by (simp add: decimal.simps [of n] digit_char_not_dash)
  next
    case False
    with "1.prems" have "CHR ''-'' \<notin> set (decimal (n div 10))"
      using "1.IH" by simp
    moreover have "CHR ''-'' \<noteq> digit_char (n mod 10)"
      by (rule digit_char_not_dash) simp_all
    ultimately show ?thesis
      using False by (simp add: decimal.simps [of n])
  qed
qed

lemma decimal_not_Nil: "decimal n \<noteq> []"
  by (simp add: decimal.simps [of n])

lemma make_item_id_inj: "make_item_id i r = make_item_id j r' \<Longrightarrow> i = j"
proof -
  assume "make_item_id i r = make_item_id j r'"
  then have eq: "decimal (int i) @ CHR ''-'' # r = decimal (int j) @ CHR ''-'' # r'"
    by (simp add: make_item_id_def)
  have "takeWhile (\<lambda>c. c \<noteq> CHR ''-'') (decimal (int i) @ CHR ''-'' # r) = decimal (int i)"
    using decimal_no_dash [of "int i"] by (auto simp: takeWhile_tail)
  moreover have "takeWhile (\<lambda>c. c \<noteq> CHR ''-'') (decimal (int j) @ CHR ''-'' # r') = decimal (int j)"
    using decimal_no_dash [of "int j"] by (auto simp: takeWhile_tail)
  ultimately have "decimal (int i) = decimal (int j)"
    using eq by simp
  then show "i = j"
    using decimal_inj [of "int i" "int j"] by simp
qed

lemma make_item_id_not_Nil: "make_item_id i r \<noteq> []"
  by (simp add: make_item_id_def)

lemma dropKey_not_Nil: "dropKey i \<noteq> []"
  by (simp add: dropKey_def)

lemma item_ids_allItems:
  "map item_id (allItems answers opts rnd) =
     map (\<lambda>i. make_item_id i (rnd i)) [0..<length (merged_texts answers opts)]"
  by (rule nth_equalityI) (simp_all add: allItems_def nth_enumerate_eq)

lemma distinct_item_ids: "distinct (map item_id (allItems answers opts rnd))"
  unfolding item_ids_allItems
  by (auto simp: distinct_map intro!: inj_onI dest: make_item_id_inj)

lemma item_ids_not_Nil: "[] \<notin> set (map item_id (allItems answers opts rnd))"
  unfolding item_ids_allItems
  using make_item_id_not_Nil by (auto dest: sym)



section \<open>The placement invariant\<close>

lemma key_of_item_Some:
  "key_of_item al a = Some k \<Longrightarrow> distinct (map fst al) \<Longrightarrow> map_of al k = Some a"
proof -
  assume k: "key_of_item al a = Some k" and d: "distinct (map fst al)"
  then obtain e where "find (\<lambda>entry. snd entry = a) al = Some e" "fst e = k"
    by (auto simp: key_of_item_def)
  then have "(k, a) \<in> set al"
    by (auto simp: find_Some_iff)
  with d show ?thesis by simp
qed

lemma key_of_item_None: "key_of_item al a = None \<Longrightarrow> map_of al k \<noteq> Some a"
proof
  assume "key_of_item al a = None" and "map_of al k = Some a"
  then have "(k, a) \<in> set al" "\<forall>e \<in> set al. snd e \<noteq> a"
    by (auto simp: key_of_item_def find_None_iff dest: map_of_SomeD)
  then show False by auto
qed

lemma truthy_Some [simp]: "v \<noteq> [] \<Longrightarrow> truthy (Some v) = Some v"
  by (simp add: truthy_def)

lemma truthy_None [simp]: "truthy None = None"
  by (simp add: truthy_def)

lemma filter_neq_bank:
  "(if a \<in> set bank then filter (\<lambda>item. item \<noteq> a) bank else bank) = filter (\<lambda>item. item \<noteq> a) bank"
  by (induction bank) auto

lemma key_of_item_unique:
  assumes "distinct (map fst al)"
    and "\<And>k k' v. map_of al k = Some v \<Longrightarrow> map_of al k' = Some v \<Longrightarrow> k = k'"
    and "map_of al k = Some a"
  shows "key_of_item al a = Some k"
proof (cases "key_of_item al a")
  case None
  with assms(3) show ?thesis using key_of_item_None by blast
next
  case (Some k')
  then have "map_of al k' = Some a" using assms(1) by (rule key_of_item_Some)
  with assms(2,3) have "k' = k" by blast
  with Some show ?thesis by simp
qed

lemma place_item_fields:
  assumes inv: "placement_inv s"
  shows "map_of (droppedItems (place_item a t s)) =
           (\<lambda>x. if key_of_item (droppedItems s) a = Some x then None
                else if x = t then Some a else map_of (droppedItems s) x)"
    and "dragItems (place_item a t s) =
           filter (\<lambda>item. item \<noteq> a) (dragItems s) @
           (case map_of (droppedItems s) t of None \<Rightarrow> [] | Some old \<Rightarrow> [old])"
    and "distinct (map fst (droppedItems (place_item a t s)))"
    and "selectedId (place_item a t s) = selectedId s"
    and "activeDropMenu (place_item a t s) = activeDropMenu s"
proof -
  let ?al = "droppedItems s" and ?bank = "dragItems s"
  let ?m = "map_of ?al"
  from inv have d2: "distinct (map fst ?al)"
    and disj: "\<And>k v. ?m k = Some v \<Longrightarrow> v \<notin> set ?bank \<and> v \<noteq> [] \<and> k \<noteq> []"
    by (auto simp: placement_inv_def)
  have src: "truthy (key_of_item ?al a) = key_of_item ?al a"
  proof (cases "key_of_item ?al a")
    case None
    then show ?thesis by simp
  next
    case (Some k)
    then have "?m k = Some a" using d2 by (rule key_of_item_Some)
    with disj have "k \<noteq> []" by blast
    with Some show ?thesis by simp
  qed
  have tgt: "truthy (?m t) = ?m t"
  proof (cases "?m t")
    case None
    then show ?thesis by simp
  next
    case (Some old)
    with disj have "old \<noteq> []" by blast
    with Some show ?thesis by simp
  qed
  show "map_of (droppedItems (place_item a t s)) =
           (\<lambda>x. if key_of_item ?al a = Some x then None
                else if x = t then Some a else ?m x)"
  proof (cases "key_of_item ?al a")
    case None
    with src have "truthy None = (None :: string option)" by simp
    with None show ?thesis
      by (auto simp: place_item_def Let_def AList.update_conv')
  next
    case (Some k)
    with src have "truthy (Some k) = Some k" by simp
    with Some show ?thesis
      by (auto simp: place_item_def Let_def AList.update_conv' AList.delete_conv')
  qed
  show "dragItems (place_item a t s) =
           filter (\<lambda>item. item \<noteq> a) ?bank @ (case ?m t of None \<Rightarrow> [] | Some old \<Rightarrow> [old])"
  proof (cases "?m t")
    case None
    then show ?thesis
      by (simp add: place_item_def Let_def filter_neq_bank)
  next
    case (Some old)
    with tgt have "truthy (Some old) = Some old" by simp
    with Some show ?thesis
      by (simp add: place_item_def Let_def filter_neq_bank)
  qed
  show "distinct (map fst (droppedItems (place_item a t s)))"
  proof (cases "key_of_item ?al a")
    case None
    with d2 show ?thesis
      by (simp add: place_item_def Let_def AList.distinct_update)
  next
    case (Some k)
    with src have "truthy (Some k) = Some k" by simp
    with Some d2 show ?thesis
      by (simp add: place_item_def Let_def AList.distinct_update AList.distinct_delete)
  qed
  show "selectedId (place_item a t s) = selectedId s"
    by (simp add: place_item_def Let_def)
  show "activeDropMenu (place_item a t s) = activeDropMenu s"
    by (simp add: place_item_def Let_def)
qed

lemma placement_invI:
  assumes "distinct (dragItems s)" "distinct (map fst (droppedItems s))"
    "\<And>k k' v. map_of (droppedItems s) k = Some v \<Longrightarrow> map_of (droppedItems s) k' = Some v \<Longrightarrow> k = k'"
    "\<And>k v. map_of (droppedItems s) k = Some v \<Longrightarrow> v \<notin> set (dragItems s) \<and> v \<noteq> [] \<and> k \<noteq> []"
    "[] \<notin> set (dragItems s)" "selectedId s \<noteq> Some []" "activeDropMenu s \<noteq> Some []"
  shows "placement_inv s"
  unfolding placement_inv_def using assms by blast

lemma place_item_inv:
  assumes inv: "placement_inv s" and a: "a \<noteq> []" and t: "t \<noteq> []"
  shows "placement_inv (place_item a t s)"
proof -
  let ?al = "droppedItems s" and ?bank = "dragItems s"
  let ?m = "map_of ?al"
  let ?s' = "place_item a t s"
  let ?m' = "map_of (droppedItems ?s')"
  from inv have d2: "distinct (map fst ?al)" and d1: "distinct ?bank"
    and inj: "\<And>k k' v. ?m k = Some v \<Longrightarrow> ?m k' = Some v \<Longrightarrow> k = k'"
    and disj: "\<And>k v. ?m k = Some v \<Longrightarrow> v \<notin> set ?bank \<and> v \<noteq> [] \<and> k \<noteq> []"
    and ne: "[] \<notin> set ?bank" and sel: "selectedId s \<noteq> Some []" and menu: "activeDropMenu s \<noteq> Some []"
    by (auto simp: placement_inv_def)
  note f = place_item_fields [OF inv, of a t]
  have key: "key_of_item ?al a = Some k" if "?m k = Some a" for k
    using d2 inj that by (rule key_of_item_unique)
  have new: "(v = a \<and> x = t \<and> ?m t \<noteq> Some a) \<or> (v \<noteq> a \<and> x \<noteq> t \<and> ?m x = Some v)"
    if "?m' x = Some v" for x v
    using that key [of x] key [of t] unfolding f(1)
    by (auto split: if_splits)
  have bank': "set (dragItems ?s') \<subseteq> (set ?bank - {a}) \<union> {old. ?m t = Some old}"
    unfolding f(2) by (auto split: option.splits)
  show ?thesis
  proof (rule placement_invI)
    show "distinct (dragItems ?s')"
      unfolding f(2) using d1 disj [of t] by (auto split: option.splits)
    show "distinct (map fst (droppedItems ?s'))"
      by (rule f(3))
    show "k = k'" if "?m' k = Some v" "?m' k' = Some v" for k k' v
      using new [OF that(1)] new [OF that(2)] inj by blast
    show "v \<notin> set (dragItems ?s') \<and> v \<noteq> [] \<and> k \<noteq> []" if "?m' k = Some v" for k v
      using new [OF that] bank' disj [of k v] inj [of k v t] a t by blast
    show "[] \<notin> set (dragItems ?s')"
      using bank' ne disj [of t "[]"] by blast
    show "selectedId ?s' \<noteq> Some []"
      using sel by (simp add: f(4))
    show "activeDropMenu ?s' \<noteq> Some []"
      using menu by (simp add: f(5))
  qed
qed


lemma truthy_SomeD: "truthy v = Some x \<Longrightarrow> v = Some x \<and> x \<noteq> []"
  by (auto simp: truthy_def split: option.splits if_splits)

lemma placement_inv_selected:
  "placement_inv s \<Longrightarrow> sel \<noteq> Some [] \<Longrightarrow> placement_inv (s\<lparr> selectedId := sel \<rparr>)"
  by (simp add: placement_inv_def)

lemma placement_inv_menu:
  "placement_inv s \<Longrightarrow> menu \<noteq> Some [] \<Longrightarrow> placement_inv (s\<lparr> activeDropMenu := menu \<rparr>)"
  by (simp add: placement_inv_def)

lemma unplace_from_inv:
  assumes inv: "placement_inv s" and k: "map_of (droppedItems s) k = Some v"
  shows "placement_inv (unplace_from k v s)"
proof -
  let ?m = "map_of (droppedItems s)"
  from inv have d2: "distinct (map fst (droppedItems s))" and d1: "distinct (dragItems s)"
    and inj: "\<And>k k' v. ?m k = Some v \<Longrightarrow> ?m k' = Some v \<Longrightarrow> k = k'"
    and disj: "\<And>k v. ?m k = Some v \<Longrightarrow> v \<notin> set (dragItems s) \<and> v \<noteq> [] \<and> k \<noteq> []"
    and ne: "[] \<notin> set (dragItems s)" and sel: "selectedId s \<noteq> Some []"
    and menu: "activeDropMenu s \<noteq> Some []"
    by (auto simp: placement_inv_def)
  have m': "map_of (droppedItems (unplace_from k v s)) = ?m(k := None)"
    by (simp add: unplace_from_def AList.delete_conv')
  show ?thesis
  proof (rule placement_invI)
    show "distinct (dragItems (unplace_from k v s))"
      using d1 disj [OF k] by (auto simp: unplace_from_def)
    show "distinct (map fst (droppedItems (unplace_from k v s)))"
      using d2 by (simp add: unplace_from_def AList.distinct_delete)
    show "x = x'" if "map_of (droppedItems (unplace_from k v s)) x = Some w"
      "map_of (droppedItems (unplace_from k v s)) x' = Some w" for x x' w
      using that inj [of x w x'] unfolding m' by (auto split: if_splits)
    show "w \<notin> set (dragItems (unplace_from k v s)) \<and> w \<noteq> [] \<and> x \<noteq> []"
      if "map_of (droppedItems (unplace_from k v s)) x = Some w" for x w
      using that disj [of x w] inj [of x w k] k unfolding m'
      by (auto simp: unplace_from_def split: if_splits)
    show "[] \<notin> set (dragItems (unplace_from k v s))"
      using ne disj [OF k] by (auto simp: unplace_from_def)
    show "selectedId (unplace_from k v s) \<noteq> Some []"
      using sel by (simp add: unplace_from_def)
    show "activeDropMenu (unplace_from k v s) \<noteq> Some []"
      using menu by (simp add: unplace_from_def)
  qed
qed

lemma handleMenuOptionClick_inv:
  assumes inv: "placement_inv s" and a: "a \<in> set (dragItems s)" and d: "d \<noteq> []"
  shows "placement_inv (handleMenuOptionClick d a s)"
proof -
  let ?m = "map_of (droppedItems s)"
  let ?s' = "handleMenuOptionClick d a s"
  from inv have d2: "distinct (map fst (droppedItems s))" and d1: "distinct (dragItems s)"
    and inj: "\<And>k k' v. ?m k = Some v \<Longrightarrow> ?m k' = Some v \<Longrightarrow> k = k'"
    and disj: "\<And>k v. ?m k = Some v \<Longrightarrow> v \<notin> set (dragItems s) \<and> v \<noteq> [] \<and> k \<noteq> []"
    and ne: "[] \<notin> set (dragItems s)" and sel: "selectedId s \<noteq> Some []"
    by (auto simp: placement_inv_def)
  have m': "map_of (droppedItems ?s') = ?m(d \<mapsto> a)"
    by (simp add: handleMenuOptionClick_def AList.update_conv')
  have bank': "dragItems ?s' = filter (\<lambda>item. item \<noteq> a) (dragItems s)"
    by (simp add: handleMenuOptionClick_def)
  from a ne have a_ne: "a \<noteq> []" by auto
  show ?thesis
  proof (rule placement_invI)
    show "distinct (dragItems ?s')"
      using d1 by (simp add: bank')
    show "distinct (map fst (droppedItems ?s'))"
      using d2 by (simp add: handleMenuOptionClick_def AList.distinct_update)
    show "x = x'" if "map_of (droppedItems ?s') x = Some w" "map_of (droppedItems ?s') x' = Some w"
      for x x' w
      using that inj [of x w x'] disj [of x a] disj [of x' a] a unfolding m'
      by (auto split: if_splits)
    show "w \<notin> set (dragItems ?s') \<and> w \<noteq> [] \<and> x \<noteq> []"
      if "map_of (droppedItems ?s') x = Some w" for x w
      using that disj [of x w] a_ne d unfolding m' bank'
      by (auto split: if_splits)
    show "[] \<notin> set (dragItems ?s')"
      using ne by (simp add: bank')
    show "selectedId ?s' \<noteq> Some []"
      using sel by (simp add: handleMenuOptionClick_def)
    show "activeDropMenu ?s' \<noteq> Some []"
      by (simp add: handleMenuOptionClick_def)
  qed
qed

lemma handleDragEnd_inv:
  assumes inv: "placement_inv s" and a: "a \<noteq> []" and over: "over \<noteq> Some []"
  shows "placement_inv (handleDragEnd a over s)"
proof (cases over)
  case None
  show ?thesis
  proof (cases "truthy (key_of_item (droppedItems s) a)")
    case n: None
    with None inv show ?thesis
      by (simp add: handleDragEnd_def placement_inv_selected)
  next
    case (Some src)
    then have "key_of_item (droppedItems s) a = Some src"
      by (simp add: truthy_SomeD)
    moreover from inv have "distinct (map fst (droppedItems s))"
      by (simp add: placement_inv_def)
    ultimately have "map_of (droppedItems s) src = Some a"
      by (rule key_of_item_Some)
    with inv have "placement_inv (unplace_from src a s)"
      by (rule unplace_from_inv)
    with None Some show ?thesis
      by (simp add: handleDragEnd_def placement_inv_selected)
  qed
next
  case (Some t)
  with over have "t \<noteq> []" by simp
  with inv a have "placement_inv (place_item a t s)"
    by (simp add: place_item_inv)
  with Some inv show ?thesis
    by (simp add: handleDragEnd_def placement_inv_selected)
qed

lemma handleDropZoneClick_inv:
  assumes inv: "placement_inv s" and d: "d \<noteq> []"
  shows "placement_inv (handleDropZoneClick b d s)"
proof (cases b)
  case True
  with inv show ?thesis by (simp add: handleDropZoneClick_def)
next
  case False
  show ?thesis
  proof (cases "truthy (selectedId s)")
    case (Some sel)
    then have "sel \<noteq> []" by (simp add: truthy_SomeD)
    with inv d have "placement_inv (place_item sel d s)"
      by (simp add: place_item_inv)
    with False Some inv show ?thesis
      by (simp add: handleDropZoneClick_def placement_inv_selected)
  next
    case None
    show ?thesis
    proof (cases "truthy (map_of (droppedItems s) d)")
      case n: None
      with False None inv d show ?thesis
        by (simp add: handleDropZoneClick_def placement_inv_menu)
    next
      case (Some cur)
      then have "map_of (droppedItems s) d = Some cur"
        by (simp add: truthy_SomeD)
      with inv have "placement_inv (unplace_from d cur s)"
        by (rule unplace_from_inv)
      with False None Some show ?thesis
        by (simp add: handleDropZoneClick_def)
    qed
  qed
qed

lemma handleWordClick_inv:
  "placement_inv s \<Longrightarrow> a \<noteq> [] \<Longrightarrow> placement_inv (handleWordClick b a s)"
  by (simp add: handleWordClick_def placement_inv_def)

lemma rendered_not_Nil:
  assumes inv: "placement_inv s"
    and a: "a \<in> set (dragItems s) \<or> a \<in> snd ` set (droppedItems s)"
  shows "a \<noteq> []"
proof (cases "a \<in> set (dragItems s)")
  case True
  moreover from inv have "[] \<notin> set (dragItems s)"
    by (simp add: placement_inv_def)
  ultimately show ?thesis by auto
next
  case False
  with a obtain k where "(k, a) \<in> set (droppedItems s)"
    by auto
  moreover from inv have "distinct (map fst (droppedItems s))"
    by (simp add: placement_inv_def)
  ultimately have "map_of (droppedItems s) k = Some a"
    by simp
  with inv show ?thesis
    unfolding placement_inv_def by blast
qed

lemma drag_step_inv:
  assumes inv: "placement_inv s" and e: "deliverable n s e"
  shows "placement_inv (drag_step s e)"
proof (cases e)
  case (DragEnd a over)
  with e inv have "a \<noteq> []"
    using rendered_not_Nil by simp
  moreover have "map_option dropKey over \<noteq> Some []"
    by (cases over) (simp_all add: dropKey_not_Nil)
  ultimately show ?thesis
    using DragEnd inv by (simp add: handleDragEnd_inv)
next
  case (WordClick a)
  with e inv have "a \<noteq> []"
    using rendered_not_Nil by simp
  with WordClick inv show ?thesis
    by (simp add: handleWordClick_inv)
next
  case (DropZoneClick i)
  with inv show ?thesis
    by (simp add: handleDropZoneClick_inv dropKey_not_Nil)
next
  case (MenuOptionClick a)
  with e obtain d where d: "activeDropMenu s = Some d" and a: "a \<in> set (dragItems s)"
    by auto
  with inv have "d \<noteq> []"
    by (auto simp: placement_inv_def)
  with inv a have "placement_inv (handleMenuOptionClick d a s)"
    by (simp add: handleMenuOptionClick_inv)
  with MenuOptionClick d show ?thesis
    by simp
qed

lemma drag_run_inv:
  "placement_inv s \<Longrightarrow> drag_run n s es = Some s' \<Longrightarrow> placement_inv s'"
proof (induction es arbitrary: s)
  case Nil
  then show ?case by simp
next
  case (Cons e es)
  from Cons.prems(2) have e: "deliverable n s e" and r: "drag_run n (drag_step s e) es = Some s'"
    by (auto split: if_splits)
  from Cons.prems(1) e have "placement_inv (drag_step s e)"
    by (rule drag_step_inv)
  then show ?case
    using r by (rule Cons.IH)
qed

lemma mount_inv:
  assumes "mset (shuffle (map item_id (allItems answers opts rnd))) =
           mset (map item_id (allItems answers opts rnd))"
  shows "placement_inv (drag_of (fillBlanks_mount base p txt answers opts rnd shuffle))"
proof -
  let ?ids = "map item_id (allItems answers opts rnd)"
  have "distinct (shuffle ?ids)"
    using assms distinct_item_ids [of answers opts rnd] by (metis mset_eq_imp_distinct_iff)
  moreover have "[] \<notin> set (shuffle ?ids)"
    using assms item_ids_not_Nil [of answers opts rnd] by (metis mset_eq_setD)
  ultimately show ?thesis
    by (simp add: fillBlanks_mount_def Let_def placement_inv_def)
qed


lemma place_item_evicts:
  assumes inv: "placement_inv s" and x: "map_of (droppedItems s) t = Some x" and xa: "x \<noteq> a"
  shows "x \<in> set (dragItems (place_item a t s))
       \<and> map_of (droppedItems (place_item a t s)) t = Some a
       \<and> x \<notin> snd ` set (droppedItems (place_item a t s))"
proof -
  let ?al = "droppedItems s"
  let ?m = "map_of ?al"
  let ?s' = "place_item a t s"
  from inv have d2: "distinct (map fst ?al)"
    and inj: "\<And>k k' v. ?m k = Some v \<Longrightarrow> ?m k' = Some v \<Longrightarrow> k = k'"
    by (auto simp: placement_inv_def)
  note f = place_item_fields [OF inv, of a t]
  have nokey: "key_of_item ?al a \<noteq> Some t"
  proof
    assume "key_of_item ?al a = Some t"
    then have "?m t = Some a" using d2 by (rule key_of_item_Some)
    with x xa show False by simp
  qed
  have 1: "x \<in> set (dragItems ?s')"
    unfolding f(2) using x by simp
  have 2: "map_of (droppedItems ?s') t = Some a"
    unfolding f(1) using nokey by simp
  have 3: "x \<notin> snd ` set (droppedItems ?s')"
  proof
    assume "x \<in> snd ` set (droppedItems ?s')"
    then obtain k where "(k, x) \<in> set (droppedItems ?s')" by auto
    with f(3) have "map_of (droppedItems ?s') k = Some x" by simp
    then have "k \<noteq> t \<and> ?m k = Some x"
      unfolding f(1) using xa by (auto split: if_splits)
    with x inj show False by blast
  qed
  from 1 2 3 show ?thesis by blast
qed

lemma distinct_values:
  assumes "distinct (map fst al)"
    and "\<And>k k' v. map_of al k = Some v \<Longrightarrow> map_of al k' = Some v \<Longrightarrow> k = k'"
  shows "distinct (map snd al)"
proof -
  from assms(1) have "distinct al"
    by (simp add: distinct_map)
  moreover have "inj_on snd (set al)"
  proof (rule inj_onI)
    fix p q assume p: "p \<in> set al" and q: "q \<in> set al" and e: "snd p = snd q"
    from p assms(1) have "map_of al (fst p) = Some (snd p)" by simp
    moreover from q assms(1) have "map_of al (fst q) = Some (snd p)" by (simp add: e)
    ultimately have "fst p = fst q" by (rule assms(2))
    with e show "p = q" by (simp add: prod_eq_iff)
  qed
  ultimately show ?thesis
    by (simp add: distinct_map)
qed

lemma placement_inv_claims:
  assumes inv: "placement_inv s"
  shows "set (dragItems s) \<inter> snd ` set (droppedItems s) = {}"
    and "distinct (map snd (droppedItems s))"
    and "distinct (map fst (droppedItems s))"
proof -
  from inv have d2: "distinct (map fst (droppedItems s))"
    and inj: "\<And>k k' v. map_of (droppedItems s) k = Some v \<Longrightarrow> map_of (droppedItems s) k' = Some v \<Longrightarrow> k = k'"
    and disj: "\<And>k v. map_of (droppedItems s) k = Some v \<Longrightarrow> v \<notin> set (dragItems s)"
    by (auto simp: placement_inv_def)
  show "distinct (map fst (droppedItems s))" by (rule d2)
  show "distinct (map snd (droppedItems s))" using d2 inj by (rule distinct_values)
  show "set (dragItems s) \<inter> snd ` set (droppedItems s) = {}"
  proof (rule ccontr)
    assume "set (dragItems s) \<inter> snd ` set (droppedItems s) \<noteq> {}"
    then obtain k v where "v \<in> set (dragItems s)" "(k, v) \<in> set (droppedItems s)"
      by auto
    with d2 have "v \<in> set (dragItems s)" "map_of (droppedItems s) k = Some v"
      by simp_all
    with disj show False by blast
  qed
qed

text \<open>
  Start from a mount of the exercise (every item in the bank, in whatever order the
  shuffle left them, no placements) and let the rendered exercise deliver any sequence of
  events: drags ending over a drop zone or over nothing, clicks on words of the bank and
  on drop zones, choices from an open drop-zone menu. In the resulting state no item id
  is both in the bank and in a drop zone, no item id is in two drop zones, and no drop
  zone holds two entries. In such a state, dragging an item onto a drop zone that holds
  another item, or clicking that drop zone with an item selected, puts the dragged or
  selected item there and the previous occupant into the bank, in the one state the
  handler produces, and the previous occupant is in no drop zone any more.
\<close>

theorem placement_engine_invariant:
  assumes perm: "mset (shuffle (map item_id (allItems answers opts rnd))) =
                 mset (map item_id (allItems answers opts rnd))"
    and run: "drag_run (length answers)
                (drag_of (fillBlanks_mount base p txt answers opts rnd shuffle)) es = Some s"
  shows "set (dragItems s) \<inter> snd ` set (droppedItems s) = {}
       \<and> distinct (map snd (droppedItems s))
       \<and> distinct (map fst (droppedItems s))
       \<and> (\<forall>a t x. map_of (droppedItems s) t = Some x \<and> x \<noteq> a \<longrightarrow>
            x \<in> set (dragItems (handleDragEnd a (Some t) s))
            \<and> map_of (droppedItems (handleDragEnd a (Some t) s)) t = Some a
            \<and> x \<notin> snd ` set (droppedItems (handleDragEnd a (Some t) s)))
       \<and> (\<forall>a t x. selectedId s = Some a \<and> map_of (droppedItems s) t = Some x \<and> x \<noteq> a \<longrightarrow>
            x \<in> set (dragItems (handleDropZoneClick False t s))
            \<and> map_of (droppedItems (handleDropZoneClick False t s)) t = Some a
            \<and> x \<notin> snd ` set (droppedItems (handleDropZoneClick False t s)))"
proof -
  have "placement_inv (drag_of (fillBlanks_mount base p txt answers opts rnd shuffle))"
    using perm by (rule mount_inv)
  then have inv: "placement_inv s"
    using run by (rule drag_run_inv)
  have drag: "x \<in> set (dragItems (handleDragEnd a (Some t) s))
            \<and> map_of (droppedItems (handleDragEnd a (Some t) s)) t = Some a
            \<and> x \<notin> snd ` set (droppedItems (handleDragEnd a (Some t) s))"
    if "map_of (droppedItems s) t = Some x" "x \<noteq> a" for a t x
  proof -
    from inv have "distinct (map fst (droppedItems s))"
      by (simp add: placement_inv_def)
    then have "key_of_item (droppedItems s) a \<noteq> Some t"
      using key_of_item_Some [of "droppedItems s" a t] that by auto
    then have "handleDragEnd a (Some t) s = (place_item a t s)\<lparr> selectedId := None \<rparr>"
      by (simp add: handleDragEnd_def)
    with place_item_evicts [OF inv that] show ?thesis
      by simp
  qed
  have click: "x \<in> set (dragItems (handleDropZoneClick False t s))
            \<and> map_of (droppedItems (handleDropZoneClick False t s)) t = Some a
            \<and> x \<notin> snd ` set (droppedItems (handleDropZoneClick False t s))"
    if "selectedId s = Some a" "map_of (droppedItems s) t = Some x" "x \<noteq> a" for a t x
  proof -
    from inv that(1) have "a \<noteq> []"
      by (auto simp: placement_inv_def)
    with that have "handleDropZoneClick False t s = (place_item a t s)\<lparr> selectedId := None \<rparr>"
      by (simp add: handleDropZoneClick_def)
    with place_item_evicts [OF inv that(2,3)] show ?thesis
      by simp
  qed
  show ?thesis
  proof (intro conjI allI impI)
    show "set (dragItems s) \<inter> snd ` set (droppedItems s) = {}"
      using inv by (rule placement_inv_claims)
    show "distinct (map snd (droppedItems s))"
      using inv by (rule placement_inv_claims)
    show "distinct (map fst (droppedItems s))"
      using inv by (rule placement_inv_claims)
  next
    fix a t x
    assume h: "map_of (droppedItems s) t = Some x \<and> x \<noteq> a"
    then have *: "map_of (droppedItems s) t = Some x" "x \<noteq> a" by simp_all
    show "x \<in> set (dragItems (handleDragEnd a (Some t) s))"
      using drag [OF *] by (rule conjunct1)
    show "map_of (droppedItems (handleDragEnd a (Some t) s)) t = Some a"
      using drag [OF *] by (elim conjE)
    show "x \<notin> snd ` set (droppedItems (handleDragEnd a (Some t) s))"
      using drag [OF *] by (elim conjE)
  next
    fix a t x
    assume h: "selectedId s = Some a \<and> map_of (droppedItems s) t = Some x \<and> x \<noteq> a"
    then have *: "selectedId s = Some a" "map_of (droppedItems s) t = Some x" "x \<noteq> a"
      by simp_all
    show "x \<in> set (dragItems (handleDropZoneClick False t s))"
      using click [OF *] by (rule conjunct1)
    show "map_of (droppedItems (handleDropZoneClick False t s)) t = Some a"
      using click [OF *] by (elim conjE)
    show "x \<notin> snd ` set (droppedItems (handleDropZoneClick False t s))"
      using click [OF *] by (elim conjE)
  qed
qed


definition example_mount :: FillBlanksInstance where
  "example_mount =
     fillBlanks_mount ''/'' ''/A1/Lesson1'' ''Der [Mann] und die [Frau]''
       [''Mann'', ''Frau''] [''Kind''] (\<lambda>i. ''r'') rev"

definition example_events :: "drag_event list" where
  "example_events =
     [DragEnd ''item-0-r'' (Some 1), WordClick ''item-1-r'', DropZoneClick 0,
      DragEnd ''item-0-r'' (Some 0), DropZoneClick 1, MenuOptionClick ''item-2-r'',
      DragEnd ''item-2-r'' None]"

definition example_state :: DragState where
  "example_state =
     \<lparr> dragItems = [''item-1-r'', ''item-2-r''],
       droppedItems = [(''drop-0'', ''item-0-r'')],
       selectedId = None, activeDropMenu = None \<rparr>"

lemma example_items:
  "items_of example_mount =
     [\<lparr> item_id = ''item-0-r'', item_text = ''Mann'' \<rparr>,
      \<lparr> item_id = ''item-1-r'', item_text = ''Frau'' \<rparr>,
      \<lparr> item_id = ''item-2-r'', item_text = ''Kind'' \<rparr>]"
  by code_simp

lemma example_run: "drag_run 2 (drag_of example_mount) example_events = Some example_state"
  by code_simp

lemma example_drop0: "dropKey 0 = ''drop-0''"
  by code_simp

theorem placement_engine_invariant_witness:
  "drag_run 2 (drag_of example_mount) example_events = Some example_state
   \<and> set (dragItems example_state) \<inter> snd ` set (droppedItems example_state) = {}
   \<and> distinct (map snd (droppedItems example_state))
   \<and> ''item-0-r'' \<in> set (dragItems (handleDragEnd ''item-1-r'' (Some ''drop-0'') example_state))
   \<and> map_of (droppedItems (handleDragEnd ''item-1-r'' (Some ''drop-0'') example_state)) ''drop-0''
       = Some ''item-1-r''"
proof -
  have perm: "mset (rev (map item_id (allItems [''Mann'', ''Frau''] [''Kind''] (\<lambda>i. ''r'')))) =
              mset (map item_id (allItems [''Mann'', ''Frau''] [''Kind''] (\<lambda>i. ''r'')))"
    by simp
  have run: "drag_run (length [''Mann'', ''Frau''])
               (drag_of (fillBlanks_mount ''/'' ''/A1/Lesson1'' ''Der [Mann] und die [Frau]''
                  [''Mann'', ''Frau''] [''Kind''] (\<lambda>i. ''r'') rev)) example_events =
             Some example_state"
  proof -
    have "length [''Mann'', ''Frau''] = 2" by simp
    then show ?thesis
      using example_run [unfolded example_mount_def] by (simp only:)
  qed
  note inv = placement_engine_invariant [OF perm run]
  have occ: "map_of (droppedItems example_state) ''drop-0'' = Some ''item-0-r''
             \<and> ''item-0-r'' \<noteq> ''item-1-r''"
    by (simp add: example_state_def)
  from inv have c1: "set (dragItems example_state) \<inter> snd ` set (droppedItems example_state) = {}"
    by (rule conjunct1)
  from inv have c2: "distinct (map snd (droppedItems example_state))"
    by (elim conjE)
  from inv have ev: "\<forall>a t x. map_of (droppedItems example_state) t = Some x \<and> x \<noteq> a \<longrightarrow>
      x \<in> set (dragItems (handleDragEnd a (Some t) example_state))
      \<and> map_of (droppedItems (handleDragEnd a (Some t) example_state)) t = Some a
      \<and> x \<notin> snd ` set (droppedItems (handleDragEnd a (Some t) example_state))"
    by (elim conjE)
  note e1 = ev [rule_format, OF occ]
  from e1 have c3: "''item-0-r'' \<in> set (dragItems (handleDragEnd ''item-1-r'' (Some ''drop-0'') example_state))"
    by (rule conjunct1)
  from e1 have c4: "map_of (droppedItems (handleDragEnd ''item-1-r'' (Some ''drop-0'') example_state)) ''drop-0''
          = Some ''item-1-r''"
    by (elim conjE)
  show ?thesis
    by (intro conjI) (rule example_run c1 c2 c3 c4)+
qed

definition occupied_state :: DragState where
  "occupied_state =
     \<lparr> dragItems = [''item-2-r'', ''item-1-r''],
       droppedItems = [(''drop-0'', ''item-0-r'')],
       selectedId = None, activeDropMenu = Some ''drop-0'' \<rparr>"

definition lost_state :: DragState where
  "lost_state =
     \<lparr> dragItems = [''item-2-r''],
       droppedItems = [(''drop-0'', ''item-1-r'')],
       selectedId = None, activeDropMenu = None \<rparr>"

text \<open>
  C1 at a concrete run. The third way to fill a drop zone is the menu of an empty drop
  zone: \<open>handleMenuOptionClick\<close> assigns the chosen word without looking at the drop zone.
  A drag into the drop zone does not close its menu, so the menu can still be used when
  the drop zone has been filled. In the example exercise, open the menu of the first drop
  zone, drag \<open>item-0-r\<close> into that drop zone and choose \<open>item-1-r\<close> from the menu: the drop
  zone now holds \<open>item-1-r\<close>, and the previous occupant \<open>item-0-r\<close> is neither in the bank
  nor in any drop zone, where a drag of \<open>item-1-r\<close> onto the same drop zone returns it to
  the bank.
\<close>

theorem menu_option_loses_occupant:
  "drag_run 2 (drag_of example_mount) [DropZoneClick 0, DragEnd ''item-0-r'' (Some 0)] =
     Some occupied_state
   \<and> drag_run 2 occupied_state [MenuOptionClick ''item-1-r''] = Some lost_state
   \<and> drag_run 2 (drag_of example_mount)
        [DropZoneClick 0, DragEnd ''item-0-r'' (Some 0), MenuOptionClick ''item-1-r''] =
      Some lost_state
   \<and> map_of (droppedItems occupied_state) ''drop-0'' = Some ''item-0-r''
   \<and> map_of (droppedItems lost_state) ''drop-0'' = Some ''item-1-r''
   \<and> ''item-0-r'' \<notin> set (dragItems lost_state)
   \<and> ''item-0-r'' \<notin> snd ` set (droppedItems lost_state)
   \<and> ''item-0-r'' \<in> set (dragItems (handleDragEnd ''item-1-r'' (Some ''drop-0'') occupied_state))"
  by code_simp



section \<open>Correctness in drag mode\<close>

lemma getItemText_item:
  "distinct (map item_id items) \<Longrightarrow> it \<in> set items \<Longrightarrow> getItemText items (item_id it) = item_text it"
proof (induction items)
  case Nil
  then show ?case by simp
next
  case (Cons i items)
  show ?case
  proof (cases "item_id i = item_id it")
    case True
    with Cons.prems have "i = it"
      by (auto simp: image_iff)
    then show ?thesis
      by (simp add: getItemText_def)
  next
    case False
    with Cons.prems have "it \<in> set items" "distinct (map item_id items)"
      by auto
    with Cons.IH have "getItemText items (item_id it) = item_text it"
      by simp
    with False show ?thesis
      by (simp add: getItemText_def)
  qed
qed

lemma list_all_enumerate:
  "list_all (\<lambda>(idx, x). P idx x) (enumerate n xs) = (\<forall>i<length xs. P (n + i) (xs ! i))"
proof (induction xs arbitrary: n)
  case Nil
  then show ?case by simp
next
  case (Cons x xs)
  have "(\<forall>i<Suc (length xs). P (n + i) ((x # xs) ! i)) =
        (P n x \<and> (\<forall>i<length xs. P (Suc n + i) (xs ! i)))"
    by (auto simp: less_Suc_eq_0_disj)
  with Cons [of "Suc n"] show ?case
    by simp
qed

text \<open>
  C10. In drag mode, with every drop zone holding nothing or the id of an item of the
  exercise, the overall-correct predicate holds iff every blank's drop zone is filled and
  the text of the item placed there is equal to that blank's answer; the comparison is
  equality of the two strings as they are. A blank whose drop zone is empty makes the
  predicate false.
\<close>

theorem dragAllCorrect_iff:
  assumes placed: "snd ` set (droppedItems s) \<subseteq> item_id ` set (allItems answers opts rnd)"
  shows "dragAllCorrect (allItems answers opts rnd) answers s =
           (\<forall>idx<length answers. \<exists>it \<in> set (allItems answers opts rnd).
              map_of (droppedItems s) (dropKey idx) = Some (item_id it) \<and>
              item_text it = answers ! idx)
         \<and> ((\<exists>idx<length answers. map_of (droppedItems s) (dropKey idx) = None) \<longrightarrow>
              \<not> dragAllCorrect (allItems answers opts rnd) answers s)"
proof -
  let ?items = "allItems answers opts rnd"
  let ?m = "map_of (droppedItems s)"
  have d: "distinct (map item_id ?items)"
    by (rule distinct_item_ids)
  have ne: "item_id it \<noteq> []" if "it \<in> set ?items" for it
    using that item_ids_not_Nil [of answers opts rnd] by (auto simp: image_iff)
  have one: "(case truthy (?m key) of
                Some droppedId \<Rightarrow> getItemText ?items droppedId = ans
              | None \<Rightarrow> False) =
             (\<exists>it \<in> set ?items. ?m key = Some (item_id it) \<and> item_text it = ans)"
    for key ans
  proof (cases "?m key")
    case None
    then show ?thesis by simp
  next
    case (Some v)
    then have "(key, v) \<in> set (droppedItems s)"
      by (rule map_of_SomeD)
    with placed obtain it where it: "it \<in> set ?items" "v = item_id it"
      by (auto simp: image_iff subset_iff)
    with ne have tr: "truthy (Some v) = Some v"
      by simp
    have itx: "getItemText ?items v = item_text it"
      using d it by (simp add: getItemText_item)
    have uniq: "it' = it" if "it' \<in> set ?items" "item_id it' = item_id it" for it'
      using d it(1) that by (auto simp: distinct_map dest: inj_onD)
    have L: "(case truthy (?m key) of
                Some droppedId \<Rightarrow> getItemText ?items droppedId = ans
              | None \<Rightarrow> False) = (item_text it = ans)"
      by (simp add: Some tr itx)
    have R: "(\<exists>it' \<in> set ?items. ?m key = Some (item_id it') \<and> item_text it' = ans) =
             (item_text it = ans)"
    proof
      assume "\<exists>it' \<in> set ?items. ?m key = Some (item_id it') \<and> item_text it' = ans"
      then obtain it' where i': "it' \<in> set ?items" "?m key = Some (item_id it')" "item_text it' = ans"
        by blast
      with Some it have "item_id it' = item_id it" by simp
      with i'(1) have "it' = it" by (rule uniq)
      with i'(3) show "item_text it = ans" by simp
    next
      assume "item_text it = ans"
      with it Some show "\<exists>it' \<in> set ?items. ?m key = Some (item_id it') \<and> item_text it' = ans"
        by blast
    qed
    show ?thesis
      unfolding L R ..
  qed
  have iff: "dragAllCorrect ?items answers s =
           (\<forall>idx<length answers. \<exists>it \<in> set ?items.
              ?m (dropKey idx) = Some (item_id it) \<and> item_text it = answers ! idx)"
    unfolding dragAllCorrect_def list_all_enumerate one by simp
  have "\<not> dragAllCorrect ?items answers s" if "\<exists>idx<length answers. ?m (dropKey idx) = None"
    using that unfolding iff by auto
  with iff show ?thesis
    by blast
qed


definition filled_state :: DragState where
  "filled_state =
     \<lparr> dragItems = [''item-2-r''],
       droppedItems = [(''drop-0'', ''item-0-r''), (''drop-1'', ''item-1-r'')],
       selectedId = None, activeDropMenu = None \<rparr>"

definition swapped_state :: DragState where
  "swapped_state =
     \<lparr> dragItems = [''item-2-r''],
       droppedItems = [(''drop-0'', ''item-1-r''), (''drop-1'', ''item-0-r'')],
       selectedId = None, activeDropMenu = None \<rparr>"

lemma filled_state_correct:
  "dragAllCorrect (allItems [''Mann'', ''Frau''] [''Kind''] (\<lambda>i. ''r'')) [''Mann'', ''Frau'']
     filled_state"
  by code_simp

lemma swapped_state_incorrect:
  "\<not> dragAllCorrect (allItems [''Mann'', ''Frau''] [''Kind''] (\<lambda>i. ''r'')) [''Mann'', ''Frau'']
     swapped_state"
  by code_simp

lemma lower_case_item_incorrect:
  "\<not> dragAllCorrect (allItems [''Mann''] [''mann''] (\<lambda>i. ''r'')) [''Mann'']
       \<lparr> dragItems = [''item-0-r''], droppedItems = [(''drop-0'', ''item-1-r'')],
         selectedId = None, activeDropMenu = None \<rparr>"
  by code_simp

lemma example_state_placed:
  "snd ` set (droppedItems example_state) \<subseteq>
     item_id ` set (allItems [''Mann'', ''Frau''] [''Kind''] (\<lambda>i. ''r''))"
proof -
  have "items_of example_mount = allItems [''Mann'', ''Frau''] [''Kind''] (\<lambda>i. ''r'')"
    by (simp add: example_mount_def fillBlanks_mount_def Let_def)
  then have "allItems [''Mann'', ''Frau''] [''Kind''] (\<lambda>i. ''r'') =
     [\<lparr> item_id = ''item-0-r'', item_text = ''Mann'' \<rparr>,
      \<lparr> item_id = ''item-1-r'', item_text = ''Frau'' \<rparr>,
      \<lparr> item_id = ''item-2-r'', item_text = ''Kind'' \<rparr>]"
    using example_items by simp
  then show ?thesis
    by (simp add: example_state_def)
qed

lemma example_state_drop1_empty:
  "1 < length [''Mann'', ''Frau''] \<and> map_of (droppedItems example_state) (dropKey 1) = None"
  by code_simp

theorem dragAllCorrect_iff_witness:
  "\<not> dragAllCorrect (allItems [''Mann'', ''Frau''] [''Kind''] (\<lambda>i. ''r'')) [''Mann'', ''Frau'']
       example_state
   \<and> dragAllCorrect (allItems [''Mann'', ''Frau''] [''Kind''] (\<lambda>i. ''r'')) [''Mann'', ''Frau'']
       filled_state
   \<and> \<not> dragAllCorrect (allItems [''Mann'', ''Frau''] [''Kind''] (\<lambda>i. ''r'')) [''Mann'', ''Frau'']
       swapped_state"
proof -
  note main = dragAllCorrect_iff [OF example_state_placed]
  have "\<exists>idx<length [''Mann'', ''Frau'']. map_of (droppedItems example_state) (dropKey idx) = None"
    using example_state_drop1_empty by (rule exI [of _ 1])
  with main have "\<not> dragAllCorrect (allItems [''Mann'', ''Frau''] [''Kind''] (\<lambda>i. ''r''))
                     [''Mann'', ''Frau''] example_state"
    by (elim conjE impE)
  then show ?thesis
    by (intro conjI) (assumption, rule filled_state_correct, rule swapped_state_incorrect)
qed



section \<open>Quiz (\<open>exercises/Quiz\<close>)\<close>

record QuizState =
  selected :: "string list"
  quiz_submitted :: bool

definition quiz_init :: QuizState where
  "quiz_init = \<lparr> selected = [], quiz_submitted = False \<rparr>"

definition correctAnswers :: "string \<Rightarrow> string list" where
  \<comment> \<open>\<open>answer.split(',').map(s => s.trim())\<close>\<close>
  "correctAnswers answer_key = map trim (split_on CHR '','' answer_key)"

definition isMultiple :: "bool \<Rightarrow> string \<Rightarrow> bool" where
  \<comment> \<open>\<open>multiple || answer.includes(',')\<close>\<close>
  "isMultiple multiple answer_key = (multiple \<or> CHR '','' \<in> set answer_key)"

definition quiz_correct :: "string \<Rightarrow> string list \<Rightarrow> bool" where
  \<comment> \<open>\<open>selected.length === correctAnswers.length &&
      selected.every(s => correctAnswers.includes(s))\<close>\<close>
  "quiz_correct answer_key sel =
     (length sel = length (correctAnswers answer_key) \<and>
      list_all (\<lambda>x. x \<in> set (correctAnswers answer_key)) sel)"

definition handleSelect :: "bool \<Rightarrow> string \<Rightarrow> nat \<Rightarrow> QuizState \<Rightarrow> QuizState" where
  "handleSelect multiple answer_key index s =
     (if quiz_submitted s then s
      else let val = decimal (int index + 1)
           in if isMultiple multiple answer_key
              then s\<lparr> selected := (if val \<in> set (selected s)
                                     then filter (\<lambda>v. v \<noteq> val) (selected s)
                                     else selected s @ [val]) \<rparr>
              else s\<lparr> selected := [val] \<rparr>)"

definition select_all :: "bool \<Rightarrow> string \<Rightarrow> nat list \<Rightarrow> QuizState" where
  \<comment> \<open>the state after clicking the options with the given (0-based) indices, from a
      fresh quiz\<close>
  "select_all multiple answer_key idxs =
     foldl (\<lambda>s i. handleSelect multiple answer_key i s) quiz_init idxs"

record QuizOutcome =
  state_after :: QuizState
  marked_complete :: bool

definition handleSubmit :: "string \<Rightarrow> string \<Rightarrow> QuizState \<Rightarrow> QuizOutcome" where
  \<comment> \<open>the second argument is \<open>exerciseIdRef.current\<close>; the outcome says whether
      \<open>markExerciseComplete\<close> was called\<close>
  "handleSubmit answer_key idRef s =
     \<lparr> state_after = s\<lparr> quiz_submitted := True \<rparr>,
       marked_complete = (quiz_correct answer_key (selected s) \<and> idRef \<noteq> []) \<rparr>"

definition quiz_isCorrect :: "string \<Rightarrow> QuizState \<Rightarrow> bool" where
  \<comment> \<open>the \<open>isCorrect\<close> of the render\<close>
  "quiz_isCorrect answer_key s = (quiz_submitted s \<and> quiz_correct answer_key (selected s))"


section \<open>The Quiz validator compares sets\<close>

lemma handleSelect_distinct:
  "distinct (selected s) \<Longrightarrow> distinct (selected (handleSelect multiple key i s))"
  by (simp add: handleSelect_def Let_def)

lemma select_all_distinct_aux:
  "distinct (selected s) \<Longrightarrow>
   distinct (selected (foldl (\<lambda>s i. handleSelect multiple key i s) s idxs))"
  by (induction idxs arbitrary: s) (simp_all add: handleSelect_distinct)

lemma select_all_distinct: "distinct (selected (select_all multiple key idxs))"
  unfolding select_all_def by (rule select_all_distinct_aux) (simp add: quiz_init_def)

lemma quiz_correct_set_eq:
  assumes "distinct sel" "distinct (correctAnswers key)"
  shows "quiz_correct key sel = (set sel = set (correctAnswers key))"
proof
  assume "quiz_correct key sel"
  then have len: "length sel = length (correctAnswers key)"
    and sub: "set sel \<subseteq> set (correctAnswers key)"
    by (auto simp: quiz_correct_def list_all_iff)
  from assms len have "card (set sel) = card (set (correctAnswers key))"
    by (simp add: distinct_card)
  with sub show "set sel = set (correctAnswers key)"
    by (simp add: card_subset_eq)
next
  assume eq: "set sel = set (correctAnswers key)"
  then have "card (set sel) = card (set (correctAnswers key))"
    by simp
  with assms have "length sel = length (correctAnswers key)"
    by (simp add: distinct_card)
  with eq show "quiz_correct key sel"
    by (simp add: quiz_correct_def list_all_iff)
qed

text \<open>
  C7 (as the code has it). For every answer key whose comma-separated entries are pairwise
  distinct after trimming, every explicit \<open>multiple\<close> flag and every sequence of option
  clicks, the validator accepts the resulting selection iff the set of selected 1-based
  indices equals the set of the key's entries (order irrelevant, no partial credit), and
  submitting marks the exercise complete in exactly that case. Multi-select is on exactly
  when the flag is set or the key contains a comma: then a click toggles the option,
  otherwise it replaces the selection.
\<close>

theorem quiz_exact_set:
  assumes "distinct (correctAnswers key)"
  shows "quiz_correct key (selected (select_all multiple key idxs)) =
           (set (selected (select_all multiple key idxs)) = set (correctAnswers key))
         \<and> marked_complete (handleSubmit key (generateStableExerciseId base lp ''Quiz'' key)
              (select_all multiple key idxs)) =
           (set (selected (select_all multiple key idxs)) = set (correctAnswers key))
         \<and> isMultiple multiple key = (multiple \<or> CHR '','' \<in> set key)
         \<and> selected (handleSelect multiple key i (select_all multiple key idxs)) =
           (let val = decimal (int i + 1); sel = selected (select_all multiple key idxs)
            in if multiple \<or> CHR '','' \<in> set key
               then (if val \<in> set sel then filter (\<lambda>v. v \<noteq> val) sel else sel @ [val])
               else [val])"
proof -
  let ?s = "select_all multiple key idxs"
  have c: "quiz_correct key (selected ?s) = (set (selected ?s) = set (correctAnswers key))"
    using select_all_distinct assms by (rule quiz_correct_set_eq)
  have "generateStableExerciseId base lp ''Quiz'' key \<noteq> []"
    by (simp add: generateStableExerciseId_def)
  then have m: "marked_complete (handleSubmit key (generateStableExerciseId base lp ''Quiz'' key) ?s) =
           (set (selected ?s) = set (correctAnswers key))"
    by (simp add: handleSubmit_def c)
  have ns: "\<not> quiz_submitted (foldl (\<lambda>s i. handleSelect multiple key i s) s idxs)"
    if "\<not> quiz_submitted s" for s
    using that by (induction idxs arbitrary: s) (simp_all add: handleSelect_def Let_def)
  have "\<not> quiz_submitted ?s"
    unfolding select_all_def by (rule ns) (simp add: quiz_init_def)
  then have h: "selected (handleSelect multiple key i ?s) =
           (let val = decimal (int i + 1); sel = selected ?s
            in if multiple \<or> CHR '','' \<in> set key
               then (if val \<in> set sel then filter (\<lambda>v. v \<noteq> val) sel else sel @ [val])
               else [val])"
    by (simp add: handleSelect_def Let_def isMultiple_def)
  from c m h show ?thesis
    by (simp only: isMultiple_def simp_thms)
qed

lemma key_1_3: "correctAnswers ''1,3'' = [''1'', ''3'']"
  by code_simp

lemma sel_1_3: "selected (select_all False ''1,3'' [2, 0]) = [''3'', ''1'']"
  by code_simp

lemma sel_1: "selected (select_all False ''1,3'' [0]) = [''1'']"
  by code_simp

lemma sel_1_2_3: "selected (select_all False ''1,3'' [0, 1, 2]) = [''1'', ''2'', ''3'']"
  by code_simp

lemma sets_1_3:
  "(set [''3'', ''1''] = set [''1'', ''3'']) = True"
  "(set [''1''] = set [''1'', ''3'']) = False"
  "(set [''1'', ''2'', ''3''] = set [''1'', ''3'']) = False"
  by code_simp+

theorem quiz_exact_set_witness:
  "quiz_correct ''1,3'' (selected (select_all False ''1,3'' [2, 0]))
   \<and> \<not> quiz_correct ''1,3'' (selected (select_all False ''1,3'' [0]))
   \<and> \<not> quiz_correct ''1,3'' (selected (select_all False ''1,3'' [0, 1, 2]))"
proof -
  have d: "distinct (correctAnswers ''1,3'')"
    by (simp add: key_1_3)
  have "quiz_correct ''1,3'' (selected (select_all False ''1,3'' [2, 0])) =
          (set (selected (select_all False ''1,3'' [2, 0])) = set (correctAnswers ''1,3''))"
    by (rule quiz_exact_set [OF d, of False "[2, 0]", THEN conjunct1])
  also have "\<dots> = True"
    by (simp only: sel_1_3 key_1_3 sets_1_3)
  finally have a: "quiz_correct ''1,3'' (selected (select_all False ''1,3'' [2, 0]))"
    by simp
  have "quiz_correct ''1,3'' (selected (select_all False ''1,3'' [0])) =
          (set (selected (select_all False ''1,3'' [0])) = set (correctAnswers ''1,3''))"
    by (rule quiz_exact_set [OF d, of False "[0]", THEN conjunct1])
  also have "\<dots> = False"
    by (simp only: sel_1 key_1_3 sets_1_3)
  finally have b: "\<not> quiz_correct ''1,3'' (selected (select_all False ''1,3'' [0]))"
    by simp
  have "quiz_correct ''1,3'' (selected (select_all False ''1,3'' [0, 1, 2])) =
          (set (selected (select_all False ''1,3'' [0, 1, 2])) = set (correctAnswers ''1,3''))"
    by (rule quiz_exact_set [OF d, of False "[0, 1, 2]", THEN conjunct1])
  also have "\<dots> = False"
    by (simp only: sel_1_2_3 key_1_3 sets_1_3)
  finally have c: "\<not> quiz_correct ''1,3'' (selected (select_all False ''1,3'' [0, 1, 2]))"
    by simp
  from a b c show ?thesis by (intro conjI)
qed

text \<open>
  C7 as stated fails for an answer key that repeats an entry: for the key \<open>1,1\<close> the
  selection of option 1 has the same set of indices as the key and is rejected, because
  the lengths 1 and 2 differ.
\<close>

theorem quiz_repeated_key_counterexample:
  "set (selected (select_all False ''1,1'' [0])) = set (correctAnswers ''1,1'')
   \<and> \<not> quiz_correct ''1,1'' (selected (select_all False ''1,1'' [0]))"
  by code_simp



section \<open>Checkpointed media (\<open>exercises/InteractiveMedia\<close>)\<close>

text \<open>
  Times are seconds, as exact rationals (the handlers only compare them and add small
  constants; a time that is not finite is dropped by \<open>handleProgress\<close> and is not an
  event here). The content of a checkpoint, a React node, is a label.
\<close>

record Checkpoint =
  cp_time :: rat
  cp_content :: string

datatype media_type = Audio | Video

record MediaState =
  isPlaying :: bool
  currentTime :: rat
  activeCheckpoint :: "Checkpoint option"
  completedCheckpoints :: "rat list"
  hasEnded :: bool
  seeking :: bool
  markedComplete :: bool

definition checkpoints_of :: "Checkpoint list \<Rightarrow> Checkpoint list" where
  \<comment> \<open>the \<open>Checkpoint\<close> children, \<open>.sort((a, b) => a.time - b.time)\<close> (a stable sort)\<close>
  "checkpoints_of authored = sort_key cp_time authored"

definition media_init :: MediaState where
  \<comment> \<open>\<open>markedComplete\<close> records whether \<open>markExerciseComplete\<close> has been called\<close>
  "media_init =
     \<lparr> isPlaying = False, currentTime = 0, activeCheckpoint = None,
       completedCheckpoints = [], hasEnded = False, seeking = False, markedComplete = False \<rparr>"

definition set_add :: "'a \<Rightarrow> 'a list \<Rightarrow> 'a list" where
  \<comment> \<open>\<open>new Set(prev).add(x)\<close>, the set as the list of its elements in insertion order\<close>
  "set_add x xs = (if x \<in> set xs then xs else xs @ [x])"

definition hits :: "rat list \<Rightarrow> rat \<Rightarrow> Checkpoint \<Rightarrow> bool" where
  \<comment> \<open>\<open>time >= cp.time && time < cp.time + 1 && !completedCheckpoints.has(cp.time)\<close>\<close>
  "hits completed_times t cp =
     (cp_time cp \<le> t \<and> t < cp_time cp + 1 \<and> cp_time cp \<notin> set completed_times)"

definition checkCheckpoints :: "Checkpoint list \<Rightarrow> rat \<Rightarrow> MediaState \<Rightarrow> MediaState" where
  "checkCheckpoints cps t s =
     (case find (hits (completedCheckpoints s) t) cps of
        Some hitCheckpoint \<Rightarrow> s\<lparr> isPlaying := False, activeCheckpoint := Some hitCheckpoint \<rparr>
      | None \<Rightarrow> s)"

definition handleProgress :: "Checkpoint list \<Rightarrow> rat \<Rightarrow> MediaState \<Rightarrow> MediaState" where
  "handleProgress cps t s =
     (if seeking s then s else checkCheckpoints cps t (s\<lparr> currentTime := t \<rparr>))"

definition onTimeUpdate :: "media_type \<Rightarrow> Checkpoint list \<Rightarrow> rat \<Rightarrow> MediaState \<Rightarrow> MediaState" where
  "onTimeUpdate ty cps t s =
     (case ty of
        Audio \<Rightarrow> handleProgress cps t (checkCheckpoints cps t (s\<lparr> currentTime := t \<rparr>))
      | Video \<Rightarrow> if seeking s then s else checkCheckpoints cps t (s\<lparr> currentTime := t \<rparr>))"

definition handleContinue :: "MediaState \<Rightarrow> MediaState" where
  "handleContinue s =
     (case activeCheckpoint s of
        Some cp \<Rightarrow>
          s\<lparr> completedCheckpoints := set_add (cp_time cp) (completedCheckpoints s),
             activeCheckpoint := None, isPlaying := True \<rparr>
      | None \<Rightarrow> s)"

fun first_index :: "('a \<Rightarrow> bool) \<Rightarrow> 'a list \<Rightarrow> nat option" where
  \<comment> \<open>\<open>findIndex\<close>, with \<open>None\<close> for \<open>-1\<close>\<close>
  "first_index P [] = None"
| "first_index P (x # xs) = (if P x then Some 0 else map_option Suc (first_index P xs))"

definition handleReplay :: "Checkpoint list \<Rightarrow> MediaState \<Rightarrow> MediaState" where
  "handleReplay cps s =
     (case activeCheckpoint s of
        None \<Rightarrow> s
      | Some active \<Rightarrow>
          (let currentIndex = first_index (\<lambda>cp. cp_time cp = cp_time active) cps;
               target0 = (case currentIndex of
                            Some (Suc prev) \<Rightarrow> cp_time (cps ! prev) + 11 / 10
                          | _ \<Rightarrow> 0);
               targetTime = (if cp_time active \<le> target0 then max 0 (cp_time active - 5)
                             else target0)
           in s\<lparr> currentTime := targetTime, activeCheckpoint := None, isPlaying := True \<rparr>))"

datatype media_event =
    TogglePlay
  | TimeUpdate rat
  | Progress rat
  | Continue
  | Replay
  | Ended
  | Play
  | Pause
  | SeekMouseDown
  | SeekChange rat
  | SeekMouseUp rat
  | Restart

fun media_handle :: "media_type \<Rightarrow> Checkpoint list \<Rightarrow> MediaState \<Rightarrow> media_event \<Rightarrow> MediaState" where
  "media_handle ty cps s TogglePlay = s\<lparr> isPlaying := \<not> isPlaying s \<rparr>"
| "media_handle ty cps s (TimeUpdate t) = onTimeUpdate ty cps t s"
| "media_handle ty cps s (Progress t) = handleProgress cps t s"
| "media_handle ty cps s Continue = handleContinue s"
| "media_handle ty cps s Replay = handleReplay cps s"
| "media_handle ty cps s Ended = s\<lparr> isPlaying := False, hasEnded := True \<rparr>"
| "media_handle ty cps s Play = s\<lparr> isPlaying := True \<rparr>"
| "media_handle ty cps s Pause = s\<lparr> isPlaying := False \<rparr>"
| "media_handle ty cps s SeekMouseDown = s\<lparr> seeking := True \<rparr>"
| "media_handle ty cps s (SeekChange t) = s\<lparr> currentTime := t \<rparr>"
| "media_handle ty cps s (SeekMouseUp t) = s\<lparr> seeking := False \<rparr>"
| "media_handle ty cps s Restart = s\<lparr> currentTime := 0 \<rparr>"

definition completion_effect :: "string \<Rightarrow> Checkpoint list \<Rightarrow> MediaState \<Rightarrow> MediaState" where
  \<comment> \<open>the effect on \<open>[hasEnded, completedCheckpoints, checkpoints.length, \<dots>]\<close>; the first
      argument is \<open>exerciseIdRef.current\<close>\<close>
  "completion_effect idRef cps s =
     (let allCheckpointsCompleted = (length (completedCheckpoints s) = length cps)
      in if hasEnded s \<and> allCheckpointsCompleted \<and> idRef \<noteq> []
         then s\<lparr> markedComplete := True \<rparr> else s)"

definition media_step ::
  "media_type \<Rightarrow> string \<Rightarrow> Checkpoint list \<Rightarrow> MediaState \<Rightarrow> media_event \<Rightarrow> MediaState" where
  "media_step ty idRef cps s e = completion_effect idRef cps (media_handle ty cps s e)"

definition media_run ::
  "media_type \<Rightarrow> string \<Rightarrow> Checkpoint list \<Rightarrow> media_event list \<Rightarrow> MediaState" where
  "media_run ty idRef cps es = foldl (media_step ty idRef cps) (completion_effect idRef cps media_init) es"

text \<open>
  The specification's view of a session, for comparison with the controller: which
  checkpoint (by its position among the sorted checkpoints) the session is at, and which
  checkpoints have been completed, where a checkpoint becomes completed only by Continue
  while the session is at it. The session is at the checkpoint the controller presents.
\<close>

record Session =
  at_checkpoint :: "nat option"
  continued :: "nat set"

definition session_init :: Session where
  "session_init = \<lparr> at_checkpoint = None, continued = {} \<rparr>"

definition session_hit :: "Checkpoint list \<Rightarrow> MediaState \<Rightarrow> rat \<Rightarrow> Session \<Rightarrow> Session" where
  "session_hit cps s t g =
     (case first_index (hits (completedCheckpoints s) t) cps of
        Some i \<Rightarrow> g\<lparr> at_checkpoint := Some i \<rparr>
      | None \<Rightarrow> g)"

fun session_step ::
  "media_type \<Rightarrow> Checkpoint list \<Rightarrow> MediaState \<Rightarrow> Session \<Rightarrow> media_event \<Rightarrow> Session" where
  "session_step ty cps s g (TimeUpdate t) =
     (if ty = Video \<and> seeking s then g else session_hit cps s t g)"
| "session_step ty cps s g (Progress t) = (if seeking s then g else session_hit cps s t g)"
| "session_step ty cps s g Continue =
     (case at_checkpoint g of
        Some i \<Rightarrow> \<lparr> at_checkpoint = None, continued = insert i (continued g) \<rparr>
      | None \<Rightarrow> g)"
| "session_step ty cps s g Replay = g\<lparr> at_checkpoint := None \<rparr>"
| "session_step ty cps s g _ = g"

fun session_run ::
  "media_type \<Rightarrow> string \<Rightarrow> Checkpoint list \<Rightarrow> MediaState \<Rightarrow> Session \<Rightarrow> media_event list \<Rightarrow>
   Session" where
  "session_run ty idRef cps s g [] = g"
| "session_run ty idRef cps s g (e # es) =
     session_run ty idRef cps (media_step ty idRef cps s e) (session_step ty cps s g e) es"

definition session_of ::
  "media_type \<Rightarrow> string \<Rightarrow> Checkpoint list \<Rightarrow> media_event list \<Rightarrow> Session" where
  "session_of ty idRef cps es =
     session_run ty idRef cps (completion_effect idRef cps media_init) session_init es"


section \<open>Completion of a checkpointed media exercise\<close>

definition first_of_time :: "Checkpoint list \<Rightarrow> nat \<Rightarrow> bool" where
  "first_of_time cps i = (\<forall>j<i. cp_time (cps ! j) \<noteq> cp_time (cps ! i))"

definition session_rel :: "Checkpoint list \<Rightarrow> MediaState \<Rightarrow> Session \<Rightarrow> bool" where
  "session_rel cps s g =
     (activeCheckpoint s = map_option (nth cps) (at_checkpoint g) \<and>
      (\<forall>i. at_checkpoint g = Some i \<longrightarrow> i < length cps \<and> first_of_time cps i) \<and>
      (\<forall>i \<in> continued g. i < length cps \<and> first_of_time cps i) \<and>
      set (completedCheckpoints s) = (\<lambda>i. cp_time (cps ! i)) ` continued g \<and>
      distinct (completedCheckpoints s))"

lemma first_index_Some:
  "first_index P xs = Some i \<Longrightarrow> i < length xs \<and> P (xs ! i) \<and> (\<forall>j<i. \<not> P (xs ! j))"
proof (induction xs arbitrary: i)
  case Nil
  then show ?case by simp
next
  case (Cons x xs)
  show ?case
  proof (cases "P x")
    case True
    with Cons.prems show ?thesis by simp
  next
    case False
    with Cons.prems obtain k where k: "first_index P xs = Some k" "i = Suc k"
      by auto
    from Cons.IH [OF k(1)] False k(2) show ?thesis
      by (auto simp: less_Suc_eq_0_disj)
  qed
qed

lemma find_first_index: "find P xs = map_option (nth xs) (first_index P xs)"
  by (induction xs) (auto simp: option.map_comp comp_def)

lemma hits_first_of_time:
  assumes "first_index (hits done_times t) cps = Some i"
  shows "i < length cps \<and> first_of_time cps i"
proof -
  from first_index_Some [OF assms]
  have i: "i < length cps" "hits done_times t (cps ! i)"
    and before: "\<And>j. j < i \<Longrightarrow> \<not> hits done_times t (cps ! j)"
    by auto
  have "cp_time (cps ! j) \<noteq> cp_time (cps ! i)" if "j < i" for j
    using before [OF that] i(2) by (auto simp: hits_def)
  with i(1) show ?thesis
    by (simp add: first_of_time_def)
qed

lemma session_rel_checkCheckpoints:
  assumes "session_rel cps s g"
  shows "session_rel cps (checkCheckpoints cps t s) (session_hit cps s t g)"
proof (cases "first_index (hits (completedCheckpoints s) t) cps")
  case None
  with assms show ?thesis
    by (simp add: checkCheckpoints_def session_hit_def find_first_index)
next
  case (Some i)
  from hits_first_of_time [OF Some] assms Some show ?thesis
    by (simp add: checkCheckpoints_def session_hit_def find_first_index session_rel_def)
qed

lemma session_rel_frame:
  assumes "session_rel cps s g"
    and "activeCheckpoint s' = activeCheckpoint s"
    and "completedCheckpoints s' = completedCheckpoints s"
  shows "session_rel cps s' g"
  using assms by (simp add: session_rel_def)

lemma checkCheckpoints_completed [simp]:
  "completedCheckpoints (checkCheckpoints cps t s) = completedCheckpoints s"
  by (simp add: checkCheckpoints_def split: option.splits)

lemma session_hit_same_completed:
  "completedCheckpoints s' = completedCheckpoints s \<Longrightarrow> session_hit cps s' t g = session_hit cps s t g"
  by (simp add: session_hit_def)

lemma session_hit_idem: "session_hit cps s t (session_hit cps s t g) = session_hit cps s t g"
  by (simp add: session_hit_def split: option.splits)

lemma session_rel_handleProgress:
  assumes "session_rel cps s g"
  shows "session_rel cps (handleProgress cps t s) (if seeking s then g else session_hit cps s t g)"
proof (cases "seeking s")
  case True
  with assms show ?thesis by (simp add: handleProgress_def)
next
  case False
  have "session_rel cps (s\<lparr> currentTime := t \<rparr>) g"
    using assms by (rule session_rel_frame) simp_all
  then have "session_rel cps (checkCheckpoints cps t (s\<lparr> currentTime := t \<rparr>))
               (session_hit cps (s\<lparr> currentTime := t \<rparr>) t g)"
    by (rule session_rel_checkCheckpoints)
  with False show ?thesis
    by (simp add: handleProgress_def session_hit_def)
qed

lemma seeking_checkCheckpoints [simp]: "seeking (checkCheckpoints cps t s) = seeking s"
  by (simp add: checkCheckpoints_def split: option.splits)

lemma session_rel_onTimeUpdate:
  assumes "session_rel cps s g"
  shows "session_rel cps (onTimeUpdate ty cps t s)
           (if ty = Video \<and> seeking s then g else session_hit cps s t g)"
proof (cases ty)
  case Video
  have "session_rel cps (s\<lparr> currentTime := t \<rparr>) g"
    using assms by (rule session_rel_frame) simp_all
  then have "session_rel cps (checkCheckpoints cps t (s\<lparr> currentTime := t \<rparr>))
               (session_hit cps (s\<lparr> currentTime := t \<rparr>) t g)"
    by (rule session_rel_checkCheckpoints)
  with Video assms show ?thesis
    by (simp add: onTimeUpdate_def session_hit_def)
next
  case Audio
  let ?s1 = "checkCheckpoints cps t (s\<lparr> currentTime := t \<rparr>)"
  let ?g1 = "session_hit cps s t g"
  have "session_rel cps (s\<lparr> currentTime := t \<rparr>) g"
    using assms by (rule session_rel_frame) simp_all
  then have "session_rel cps ?s1 (session_hit cps (s\<lparr> currentTime := t \<rparr>) t g)"
    by (rule session_rel_checkCheckpoints)
  then have 1: "session_rel cps ?s1 ?g1"
    by (simp add: session_hit_def)
  from session_rel_handleProgress [OF 1, of t]
  have "session_rel cps (handleProgress cps t ?s1)
          (if seeking ?s1 then ?g1 else session_hit cps ?s1 t ?g1)" .
  moreover have "session_hit cps ?s1 t ?g1 = ?g1"
    by (simp add: session_hit_def split: option.splits)
  ultimately show ?thesis
    using Audio by (auto simp: onTimeUpdate_def split: if_splits)
qed

lemma set_add_set [simp]: "set (set_add x xs) = insert x (set xs)"
  by (auto simp: set_add_def)

lemma set_add_distinct [simp]: "distinct xs \<Longrightarrow> distinct (set_add x xs)"
  by (simp add: set_add_def)

lemma session_rel_handleContinue:
  assumes "session_rel cps s g"
  shows "session_rel cps (handleContinue s)
           (case at_checkpoint g of
              Some i \<Rightarrow> \<lparr> at_checkpoint = None, continued = insert i (continued g) \<rparr>
            | None \<Rightarrow> g)"
proof (cases "at_checkpoint g")
  case None
  with assms show ?thesis
    by (simp add: handleContinue_def session_rel_def)
next
  case (Some i)
  with assms show ?thesis
    by (simp add: handleContinue_def session_rel_def)
qed

lemma session_rel_handleReplay:
  assumes "session_rel cps s g"
  shows "session_rel cps (handleReplay cps s) (g\<lparr> at_checkpoint := None \<rparr>)"
  using assms
  by (cases "at_checkpoint g") (simp_all add: handleReplay_def session_rel_def Let_def)

lemma session_rel_step:
  assumes "session_rel cps s g"
  shows "session_rel cps (media_handle ty cps s e) (session_step ty cps s g e)"
proof (cases e)
  case (TimeUpdate t)
  with session_rel_onTimeUpdate [OF assms] show ?thesis by simp
next
  case (Progress t)
  with session_rel_handleProgress [OF assms] show ?thesis by simp
next
  case Continue
  with session_rel_handleContinue [OF assms] show ?thesis by simp
next
  case Replay
  with session_rel_handleReplay [OF assms] show ?thesis by simp
qed (use assms in \<open>simp_all add: session_rel_def\<close>)


lemma all_continued_iff:
  assumes "session_rel cps s g"
  shows "(length (completedCheckpoints s) = length cps) = (\<forall>i<length cps. i \<in> continued g)"
proof -
  let ?C = "continued g" and ?f = "\<lambda>i. cp_time (cps ! i)"
  from assms have sub: "?C \<subseteq> {..<length cps}"
    and first: "\<And>i. i \<in> ?C \<Longrightarrow> first_of_time cps i"
    and times: "set (completedCheckpoints s) = ?f ` ?C"
    and dist: "distinct (completedCheckpoints s)"
    by (auto simp: session_rel_def)
  have fin: "finite ?C"
    using sub by (rule finite_subset) simp
  have "inj_on ?f ?C"
  proof (rule inj_onI)
    fix i j assume i: "i \<in> ?C" and j: "j \<in> ?C" and e: "?f i = ?f j"
    show "i = j"
    proof (rule ccontr)
      assume "i \<noteq> j"
      then consider "i < j" | "j < i" by linarith
      then show False
      proof cases
        case 1
        with first [OF j] e show False by (auto simp: first_of_time_def)
      next
        case 2
        with first [OF i] e show False by (auto simp: first_of_time_def)
      qed
    qed
  qed
  then have "card (?f ` ?C) = card ?C"
    by (rule card_image)
  with times dist have len: "length (completedCheckpoints s) = card ?C"
    by (metis distinct_card)
  have "(card ?C = length cps) = (?C = {..<length cps})"
  proof
    assume "card ?C = length cps"
    then have "card ?C = card {..<length cps}" by simp
    with sub show "?C = {..<length cps}"
      by (simp add: card_subset_eq)
  next
    assume "?C = {..<length cps}"
    then show "card ?C = length cps" by simp
  qed
  also have "\<dots> = (\<forall>i<length cps. i \<in> ?C)"
    using sub by auto
  finally show ?thesis
    using len by simp
qed

definition completion_cond :: "string \<Rightarrow> Checkpoint list \<Rightarrow> MediaState \<Rightarrow> bool" where
  "completion_cond idRef cps s =
     (hasEnded s \<and> length (completedCheckpoints s) = length cps \<and> idRef \<noteq> [])"

lemma hasEnded_checkCheckpoints [simp]: "hasEnded (checkCheckpoints cps t s) = hasEnded s"
  by (simp add: checkCheckpoints_def split: option.splits)

lemma markedComplete_checkCheckpoints [simp]:
  "markedComplete (checkCheckpoints cps t s) = markedComplete s"
  by (simp add: checkCheckpoints_def split: option.splits)

lemma media_handle_marked: "markedComplete (media_handle ty cps s e) = markedComplete s"
  by (cases e; cases ty)
     (simp_all add: onTimeUpdate_def handleProgress_def handleContinue_def handleReplay_def
        Let_def split: option.splits)

lemma media_handle_hasEnded: "hasEnded s \<Longrightarrow> hasEnded (media_handle ty cps s e)"
  by (cases e; cases ty)
     (simp_all add: onTimeUpdate_def handleProgress_def handleContinue_def handleReplay_def
        Let_def split: option.splits)

lemma media_handle_completed:
  assumes rel: "session_rel cps s g" and full: "length (completedCheckpoints s) = length cps"
  shows "completedCheckpoints (media_handle ty cps s e) = completedCheckpoints s"
proof (cases e)
  case Continue
  show ?thesis
  proof (cases "at_checkpoint g")
    case None
    with rel Continue show ?thesis
      by (simp add: handleContinue_def session_rel_def)
  next
    case (Some i)
    with rel have a: "activeCheckpoint s = Some (cps ! i)" and i: "i < length cps"
      by (auto simp: session_rel_def)
    from all_continued_iff [OF rel] full i have "i \<in> continued g"
      by simp
    with rel have "cp_time (cps ! i) \<in> set (completedCheckpoints s)"
      by (auto simp: session_rel_def)
    with Continue a show ?thesis
      by (simp add: handleContinue_def set_add_def)
  qed
qed (cases ty; simp add: onTimeUpdate_def handleProgress_def handleReplay_def Let_def
       split: option.splits)+

lemma completion_cond_mono:
  assumes "session_rel cps s g" "completion_cond idRef cps s"
  shows "completion_cond idRef cps (media_handle ty cps s e)"
  using assms media_handle_completed [of cps s g ty e] media_handle_hasEnded [of s ty cps e]
  by (simp add: completion_cond_def)

lemma session_rel_effect:
  "session_rel cps s g \<Longrightarrow> session_rel cps (completion_effect idRef cps s) g"
  by (simp add: session_rel_def completion_effect_def Let_def)

lemma effect_marked:
  "markedComplete (completion_effect idRef cps s) = (markedComplete s \<or> completion_cond idRef cps s)"
  by (auto simp: completion_effect_def completion_cond_def Let_def)

lemma effect_cond:
  "completion_cond idRef cps (completion_effect idRef cps s) = completion_cond idRef cps s"
  by (auto simp: completion_effect_def completion_cond_def Let_def)

lemma media_step_inv:
  assumes rel: "session_rel cps s g" and m: "markedComplete s = completion_cond idRef cps s"
  shows "session_rel cps (media_step ty idRef cps s e) (session_step ty cps s g e)
       \<and> markedComplete (media_step ty idRef cps s e) =
           completion_cond idRef cps (media_step ty idRef cps s e)"
proof -
  have 1: "session_rel cps (media_step ty idRef cps s e) (session_step ty cps s g e)"
    unfolding media_step_def using rel by (intro session_rel_effect session_rel_step)
  have "markedComplete (media_step ty idRef cps s e) =
          (completion_cond idRef cps s \<or> completion_cond idRef cps (media_handle ty cps s e))"
    by (simp add: media_step_def effect_marked media_handle_marked m)
  also have "\<dots> = completion_cond idRef cps (media_handle ty cps s e)"
    using completion_cond_mono [OF rel, of idRef ty e] by blast
  also have "\<dots> = completion_cond idRef cps (media_step ty idRef cps s e)"
    by (simp add: media_step_def effect_cond)
  finally show ?thesis
    using 1 by simp
qed

lemma media_run_inv:
  assumes "session_rel cps s g" "markedComplete s = completion_cond idRef cps s"
  shows "session_rel cps (foldl (media_step ty idRef cps) s es) (session_run ty idRef cps s g es)
       \<and> markedComplete (foldl (media_step ty idRef cps) s es) =
           completion_cond idRef cps (foldl (media_step ty idRef cps) s es)"
  using assms
proof (induction es arbitrary: s g)
  case Nil
  then show ?case by simp
next
  case (Cons e es)
  from media_step_inv [OF Cons.prems, of ty e]
  have "session_rel cps (media_step ty idRef cps s e) (session_step ty cps s g e)"
    and "markedComplete (media_step ty idRef cps s e) =
           completion_cond idRef cps (media_step ty idRef cps s e)"
    by simp_all
  from Cons.IH [OF this] show ?case
    by simp
qed

lemma media_init_inv:
  "session_rel cps (completion_effect idRef cps media_init) session_init
   \<and> markedComplete (completion_effect idRef cps media_init) =
       completion_cond idRef cps (completion_effect idRef cps media_init)"
  by (simp add: session_rel_def completion_effect_def completion_cond_def media_init_def
      session_init_def Let_def)

text \<open>
  C5. Whatever events the player and the learner deliver (time updates at any cadence and
  position, seeking, Continue, Replay, play and pause, the end of playback), the exercise
  has been marked complete iff playback has ended and every authored checkpoint has been
  completed in this session, that is, Continue has been pressed while the session was at
  that checkpoint. The times the controller keeps as completed are exactly the times of
  the checkpoints completed in this sense, so an ended playback with a checkpoint that was
  skipped marks nothing.
\<close>

theorem media_completion:
  "markedComplete
     (media_run ty (generateStableExerciseId base lp ''InteractiveMedia'' src)
        (checkpoints_of authored) es) =
   (hasEnded
      (media_run ty (generateStableExerciseId base lp ''InteractiveMedia'' src)
         (checkpoints_of authored) es) \<and>
    (\<forall>i<length (checkpoints_of authored).
       i \<in> continued
             (session_of ty (generateStableExerciseId base lp ''InteractiveMedia'' src)
                (checkpoints_of authored) es)))
   \<and> set (completedCheckpoints
        (media_run ty (generateStableExerciseId base lp ''InteractiveMedia'' src)
           (checkpoints_of authored) es)) =
     (\<lambda>i. cp_time (checkpoints_of authored ! i)) `
       continued
         (session_of ty (generateStableExerciseId base lp ''InteractiveMedia'' src)
            (checkpoints_of authored) es)"
proof -
  let ?id = "generateStableExerciseId base lp ''InteractiveMedia'' src"
  let ?cps = "checkpoints_of authored"
  let ?s = "media_run ty ?id ?cps es" and ?g = "session_of ty ?id ?cps es"
  have id: "?id \<noteq> []"
    by (simp add: generateStableExerciseId_def)
  from media_init_inv [of ?cps ?id]
  have "session_rel ?cps (completion_effect ?id ?cps media_init) session_init"
    and "markedComplete (completion_effect ?id ?cps media_init) =
           completion_cond ?id ?cps (completion_effect ?id ?cps media_init)"
    by simp_all
  from media_run_inv [OF this, of ty es]
  have rel: "session_rel ?cps ?s ?g" and m: "markedComplete ?s = completion_cond ?id ?cps ?s"
    by (simp_all add: media_run_def session_of_def)
  have "markedComplete ?s = (hasEnded ?s \<and> (\<forall>i<length ?cps. i \<in> continued ?g))"
    using m id all_continued_iff [OF rel] by (simp add: completion_cond_def)
  moreover from rel have "set (completedCheckpoints ?s) = (\<lambda>i. cp_time (?cps ! i)) ` continued ?g"
    by (simp add: session_rel_def)
  ultimately show ?thesis
    by (rule conjI)
qed


definition example_checkpoints :: "Checkpoint list" where
  "example_checkpoints =
     [\<lparr> cp_time = 30, cp_content = ''B'' \<rparr>, \<lparr> cp_time = 10, cp_content = ''A'' \<rparr>]"

definition example_media_id :: string where
  "example_media_id = generateStableExerciseId ''/'' ''/A1/Lesson1'' ''InteractiveMedia'' ''clip.mp4''"

definition skipping_events :: "media_event list" where
  "skipping_events =
     [Play, Progress (51 / 5), Continue, Progress 20, SeekMouseDown, SeekChange 35,
      SeekMouseUp 35, Progress 35, Ended]"

definition completing_events :: "media_event list" where
  "completing_events =
     [Play, TimeUpdate (51 / 5), Continue, Progress (61 / 2), Replay, Progress (301 / 10),
      Continue, Progress 35, Ended]"

lemma example_checkpoints_sorted:
  "checkpoints_of example_checkpoints =
     [\<lparr> cp_time = 10, cp_content = ''A'' \<rparr>, \<lparr> cp_time = 30, cp_content = ''B'' \<rparr>]"
  by code_simp

lemma skipping_ended:
  "hasEnded (media_run Video example_media_id (checkpoints_of example_checkpoints) skipping_events)"
  by code_simp

lemma skipping_second_open:
  "1 < length (checkpoints_of example_checkpoints) \<and>
   1 \<notin> continued (session_of Video example_media_id (checkpoints_of example_checkpoints)
                    skipping_events)"
  by code_simp

lemma completing_marked:
  "markedComplete
     (media_run Audio example_media_id (checkpoints_of example_checkpoints) completing_events)"
  by code_simp

theorem media_completion_witness:
  "hasEnded (media_run Video example_media_id (checkpoints_of example_checkpoints) skipping_events)
   \<and> \<not> markedComplete
         (media_run Video example_media_id (checkpoints_of example_checkpoints) skipping_events)
   \<and> markedComplete
         (media_run Audio example_media_id (checkpoints_of example_checkpoints) completing_events)"
proof -
  note main = media_completion [of Video "''/''" "''/A1/Lesson1''" "''clip.mp4''"
      example_checkpoints skipping_events, folded example_media_id_def, THEN conjunct1]
  have "\<not> (\<forall>i<length (checkpoints_of example_checkpoints).
            i \<in> continued (session_of Video example_media_id
                   (checkpoints_of example_checkpoints) skipping_events))"
    using skipping_second_open by blast
  with main have "\<not> markedComplete
         (media_run Video example_media_id (checkpoints_of example_checkpoints) skipping_events)"
    by simp
  with skipping_ended completing_marked show ?thesis
    by (intro conjI)
qed



section \<open>Speaking challenge (\<open>exercises/SpeakingChallenge\<close>)\<close>

definition is_stripped :: "char \<Rightarrow> bool" where
  \<comment> \<open>the character class of \<open>/[.,\/#!$%\^&\*;:{}=\-_`~()]/g\<close>\<close>
  "is_stripped c = (c \<in> set ''.,/#!$%^&*;:{}=-_`~()'')"

definition normalize :: "string \<Rightarrow> string" where
  \<comment> \<open>\<open>s.toLowerCase().replace(\<dots>, "").trim()\<close>\<close>
  "normalize s = trim (filter (\<lambda>c. \<not> is_stripped c) (toLowerCase s))"

function split_ws :: "string \<Rightarrow> string list" where
  \<comment> \<open>\<open>s.split(/\s+/)\<close>: the pieces between maximal runs of white space; white space
      at an end leaves an empty piece there\<close>
  "split_ws [] = [[]]"
| "split_ws (c # cs) =
     (if is_whitespace c then [] # split_ws (dropWhile is_whitespace cs)
      else (case split_ws cs of [] \<Rightarrow> [[c]] | x # xs \<Rightarrow> (c # x) # xs))"
  by pat_completeness auto
termination
  by (relation "measure length") (auto simp: less_Suc_eq_le length_dropWhile_le)

fun fill_row :: "char \<Rightarrow> string \<Rightarrow> nat list \<Rightarrow> nat \<Rightarrow> nat list" where
  \<comment> \<open>the inner loop over \<open>j\<close> for the row of \<open>b.charAt(i - 1)\<close>: the columns still to
      fill, the previous row from column \<open>j - 1\<close> on, and \<open>matrix[i][j - 1]\<close>\<close>
  "fill_row bi (aj # rest) (diag # up # prev) left =
     (let cell = (if bi = aj then diag
                  else min (diag + 1) (min (left + 1) (up + 1)))
      in cell # fill_row bi rest (up # prev) cell)"
| "fill_row bi _ _ left = []"

fun fill_rows :: "string \<Rightarrow> string \<Rightarrow> nat \<Rightarrow> nat list \<Rightarrow> nat list" where
  \<comment> \<open>the outer loop over \<open>i\<close>: the rows still to fill, \<open>i\<close>, and row \<open>i - 1\<close>; row \<open>i\<close>
      starts with \<open>matrix[i] = [i]\<close>\<close>
  "fill_rows a [] i prev = prev"
| "fill_rows a (bi # rest) i prev = fill_rows a rest (Suc i) (i # fill_row bi a prev i)"

definition levenshteinDistance :: "string \<Rightarrow> string \<Rightarrow> nat" where
  "levenshteinDistance a b =
     (if a = [] then length b
      else if b = [] then length a
      else last (fill_rows a b 1 [0..<Suc (length a)]))"

definition isMatch :: "string \<Rightarrow> string \<Rightarrow> bool" where
  "isMatch target spoken =
     (target = spoken \<or>
      (3 < length target \<and> 3 < length spoken \<and> levenshteinDistance target spoken \<le> 1))"

definition look_ahead :: "string \<Rightarrow> string list \<Rightarrow> nat \<Rightarrow> nat option" where
  \<comment> \<open>the \<open>for (let offset = 1; offset <= 2; offset++)\<close> loop: the first offset that
      finds the target\<close>
  "look_ahead target spokenWords sIndex =
     (if sIndex + 1 < length spokenWords \<and> isMatch target (spokenWords ! (sIndex + 1))
      then Some 1
      else if sIndex + 2 < length spokenWords \<and> isMatch target (spokenWords ! (sIndex + 2))
      then Some 2
      else None)"

function match_loop :: "string list \<Rightarrow> string list \<Rightarrow> nat \<Rightarrow> nat \<Rightarrow> nat list \<Rightarrow> nat list" where
  \<comment> \<open>the \<open>while\<close> loop; the last argument is \<open>newMatchedIndices\<close>\<close>
  "match_loop targetWords spokenWords tIndex sIndex matched =
     (if tIndex < length targetWords \<and> sIndex < length spokenWords
      then (if isMatch (targetWords ! tIndex) (spokenWords ! sIndex)
            then match_loop targetWords spokenWords (tIndex + 1) (sIndex + 1)
                   (set_add tIndex matched)
            else (case look_ahead (targetWords ! tIndex) spokenWords sIndex of
                    Some offset \<Rightarrow>
                      match_loop targetWords spokenWords (tIndex + 1) (sIndex + offset + 1)
                        (set_add tIndex matched)
                  | None \<Rightarrow> match_loop targetWords spokenWords (tIndex + 1) sIndex matched))
      else matched)"
  by pat_completeness auto
termination
  by (relation "measure (\<lambda>(targetWords, spokenWords, tIndex, sIndex, matched).
                           length targetWords - tIndex)") auto

declare match_loop.simps [simp del]

datatype speech_status = Idle | Recording | Verifying | Correct | Incorrect

definition targetWords_of :: "string \<Rightarrow> string list" where
  \<comment> \<open>\<open>words.map(w => normalize(w))\<close> for \<open>words = text.split(/\s+/)\<close>\<close>
  "targetWords_of text = map normalize (split_ws text)"

definition spokenWords_of :: "string \<Rightarrow> string list" where
  \<comment> \<open>\<open>spokenText.split(/\s+/).map(w => normalize(w)).filter(Boolean)\<close>\<close>
  "spokenWords_of spokenText = filter (\<lambda>w. w \<noteq> []) (map normalize (split_ws spokenText))"

definition matchedIndices_of :: "string \<Rightarrow> string \<Rightarrow> nat list" where
  "matchedIndices_of text spokenText =
     match_loop (targetWords_of text) (spokenWords_of spokenText) 0 0 []"

definition verifySpeech :: "string \<Rightarrow> string \<Rightarrow> speech_status" where
  \<comment> \<open>\<open>matchPercentage = newMatchedIndices.size / targetWords.length\<close>, compared with
      \<open>0.85\<close>, both in double arithmetic\<close>
  "verifySpeech text spokenText =
     (let matchPercentage =
            js_div (of_nat (length (matchedIndices_of text spokenText)))
                   (of_nat (length (targetWords_of text)))
      in if fl (85 / 100) \<le> matchPercentage then Correct else Recording)"

text \<open>
  The matching rules in the specification's words, for comparison: two words match when
  they are equal or, both longer than three characters, one single-character edit (a
  substitution, an insertion or a deletion) apart; the target words are aligned with the
  spoken words from left to right, a target word taking the current spoken word or, by
  looking ahead, one of the next two, and otherwise being passed over.
\<close>

definition one_edit :: "string \<Rightarrow> string \<Rightarrow> bool" where
  "one_edit a b =
     (a = b \<or>
      (\<exists>xs c d ys. a = xs @ c # ys \<and> b = xs @ d # ys) \<or>
      (\<exists>xs c ys. a = xs @ c # ys \<and> b = xs @ ys) \<or>
      (\<exists>xs c ys. a = xs @ ys \<and> b = xs @ c # ys))"

definition words_match :: "string \<Rightarrow> string \<Rightarrow> bool" where
  "words_match target spoken =
     (target = spoken \<or> (3 < length target \<and> 3 < length spoken \<and> one_edit target spoken))"

fun aligned :: "nat \<Rightarrow> string list \<Rightarrow> string list \<Rightarrow> nat list" where
  \<comment> \<open>the positions of the matched target words, the first target word having the given
      position\<close>
  "aligned k [] ss = []"
| "aligned k (t # ts) [] = []"
| "aligned k (t # ts) (s # ss) =
     (if words_match t s then k # aligned (Suc k) ts ss
      else (case ss of
              s1 # ss1 \<Rightarrow>
                if words_match t s1 then k # aligned (Suc k) ts ss1
                else (case ss1 of
                        s2 # ss2 \<Rightarrow>
                          if words_match t s2 then k # aligned (Suc k) ts ss2
                          else aligned (Suc k) ts (s # ss)
                      | [] \<Rightarrow> aligned (Suc k) ts (s # ss))
            | [] \<Rightarrow> aligned (Suc k) ts (s # ss)))"


section \<open>The matcher follows the stated rules\<close>

subsection \<open>An edit distance of at most one is a single edit\<close>

text \<open>
  \<open>lev\<close> is the edit distance by its recursion on the two words; the matrix that
  \<open>levenshteinDistance\<close> fills row by row holds the values of \<open>lev\<close> on the prefixes of the
  two words, so the function returns the edit distance, and that is at most one exactly
  when the words are equal or one substitution, insertion or deletion apart.
\<close>

fun lev :: "string \<Rightarrow> string \<Rightarrow> nat" where
  "lev [] ys = length ys"
| "lev (x # xs) [] = Suc (length xs)"
| "lev (x # xs) (y # ys) =
     (if x = y then lev xs ys
      else min (lev xs ys + 1) (min (lev (x # xs) ys + 1) (lev xs (y # ys) + 1)))"

fun row_of :: "string \<Rightarrow> string \<Rightarrow> string \<Rightarrow> nat list" where
  "row_of rb acc [] = [lev rb acc]"
| "row_of rb acc (c # cs) = lev rb acc # row_of rb (c # acc) cs"

lemma lev_Nil2 [simp]: "lev xs [] = length xs"
  by (cases xs) simp_all

lemma row_of_split: "row_of rb acc rest = lev rb acc # tl (row_of rb acc rest)"
  by (cases rest) simp_all

lemma fill_row_row_of:
  "fill_row bi rest (row_of rb acc rest) (lev (bi # rb) acc) = tl (row_of (bi # rb) acc rest)"
proof (induction rest arbitrary: acc)
  case Nil
  then show ?case by simp
next
  case (Cons c cs)
  have up: "row_of rb (c # acc) cs = lev rb (c # acc) # tl (row_of rb (c # acc) cs)"
    by (rule row_of_split)
  have cell: "(if bi = c then lev rb acc
               else min (lev rb acc + 1) (min (lev (bi # rb) acc + 1) (lev rb (c # acc) + 1))) =
              lev (bi # rb) (c # acc)"
    by simp
  have "fill_row bi (c # cs) (row_of rb acc (c # cs)) (lev (bi # rb) acc) =
        fill_row bi (c # cs) (lev rb acc # lev rb (c # acc) # tl (row_of rb (c # acc) cs))
          (lev (bi # rb) acc)"
    using up by simp
  also have "\<dots> = lev (bi # rb) (c # acc) #
        fill_row bi cs (lev rb (c # acc) # tl (row_of rb (c # acc) cs)) (lev (bi # rb) (c # acc))"
    by (simp only: fill_row.simps Let_def cell)
  also have "\<dots> = lev (bi # rb) (c # acc) #
        fill_row bi cs (row_of rb (c # acc) cs) (lev (bi # rb) (c # acc))"
    using up by simp
  also have "\<dots> = lev (bi # rb) (c # acc) # tl (row_of (bi # rb) (c # acc) cs)"
    by (simp only: Cons.IH)
  also have "\<dots> = row_of (bi # rb) (c # acc) cs"
    by (rule row_of_split [symmetric])
  finally show ?case
    by simp
qed

lemma row_of_Nil: "row_of [] acc rest = [length acc..<Suc (length acc + length rest)]"
proof (induction rest arbitrary: acc)
  case Nil
  then show ?case by simp
next
  case (Cons c cs)
  have "[length acc..<Suc (length acc + length (c # cs))] =
        length acc # [Suc (length acc)..<Suc (length acc + length (c # cs))]"
    by (simp add: upt_rec)
  with Cons [of "c # acc"] show ?case
    by simp
qed

lemma row_step: "Suc (length rb) # fill_row bi a (row_of rb [] a) (Suc (length rb)) = row_of (bi # rb) [] a"
proof -
  have "fill_row bi a (row_of rb [] a) (lev (bi # rb) []) = tl (row_of (bi # rb) [] a)"
    by (rule fill_row_row_of)
  moreover have "row_of (bi # rb) [] a = lev (bi # rb) [] # tl (row_of (bi # rb) [] a)"
    by (rule row_of_split)
  ultimately show ?thesis
    by simp
qed

lemma fill_rows_row_of:
  "fill_rows a bs (Suc (length rb)) (row_of rb [] a) = row_of (rev bs @ rb) [] a"
proof (induction bs arbitrary: rb)
  case Nil
  then show ?case by simp
next
  case (Cons bi bs)
  have "fill_rows a (bi # bs) (Suc (length rb)) (row_of rb [] a) =
        fill_rows a bs (Suc (length (bi # rb))) (row_of (bi # rb) [] a)"
    by (simp add: row_step)
  also have "\<dots> = row_of (rev bs @ bi # rb) [] a"
    by (rule Cons.IH)
  finally show ?case
    by simp
qed

lemma last_row_of: "last (row_of rb acc rest) = lev rb (rev rest @ acc)"
proof (induction rest arbitrary: acc)
  case Nil
  then show ?case by simp
next
  case (Cons c cs)
  have "row_of rb (c # acc) cs \<noteq> []"
    by (cases cs) simp_all
  with Cons [of "c # acc"] show ?case
    by simp
qed

lemma levenshteinDistance_lev: "levenshteinDistance a b = lev (rev b) (rev a)"
proof (cases "a = [] \<or> b = []")
  case True
  then show ?thesis
    by (auto simp: levenshteinDistance_def)
next
  case False
  have "fill_rows a b 1 [0..<Suc (length a)] = fill_rows a b (Suc (length ([] :: string))) (row_of [] [] a)"
    by (simp add: row_of_Nil)
  also have "\<dots> = row_of (rev b @ []) [] a"
    by (rule fill_rows_row_of)
  finally have "last (fill_rows a b 1 [0..<Suc (length a)]) = lev (rev b) (rev a)"
    by (simp add: last_row_of)
  with False show ?thesis
    by (simp add: levenshteinDistance_def)
qed


lemma lev_eq_0: "(lev xs ys = 0) = (xs = ys)"
  by (induction xs ys rule: lev.induct) auto

lemma lev_refl [simp]: "lev xs xs = 0"
  by (simp add: lev_eq_0)

lemma lev_delete_head: "lev (c # s) s \<le> 1"
proof (induction s arbitrary: c)
  case Nil
  then show ?case by simp
next
  case (Cons d s)
  show ?case
  proof (cases "c = d")
    case True
    with Cons [of d] show ?thesis by simp
  next
    case False
    then have "lev (c # d # s) (d # s) \<le> lev (d # s) (d # s) + 1"
      by simp
    then show ?thesis by simp
  qed
qed

lemma lev_insert_head: "lev s (c # s) \<le> 1"
proof (induction s arbitrary: c)
  case Nil
  then show ?case by simp
next
  case (Cons d s)
  show ?case
  proof (cases "d = c")
    case True
    with Cons [of d] show ?thesis by simp
  next
    case False
    then have "lev (d # s) (c # d # s) \<le> lev (d # s) (d # s) + 1"
      by simp
    then show ?thesis by simp
  qed
qed

lemma lev_common_prefix: "lev (p @ xs) (p @ ys) = lev xs ys"
  by (induction p) simp_all

lemma one_edit_lev: "one_edit a b \<Longrightarrow> lev a b \<le> 1"
  unfolding one_edit_def
proof (elim disjE exE conjE)
  assume "a = b"
  then show ?thesis by simp
next
  fix xs c d ys assume "a = xs @ c # ys" "b = xs @ d # ys"
  then show ?thesis by (simp add: lev_common_prefix)
next
  fix xs c ys assume "a = xs @ c # ys" "b = xs @ ys"
  with lev_delete_head [of c ys] show ?thesis by (simp add: lev_common_prefix)
next
  fix xs c ys assume "a = xs @ ys" "b = xs @ c # ys"
  with lev_insert_head [of ys c] show ?thesis by (simp add: lev_common_prefix)
qed

lemma one_edit_Cons: "one_edit xs ys \<Longrightarrow> one_edit (x # xs) (x # ys)"
  unfolding one_edit_def
proof (elim disjE exE conjE)
  assume "xs = ys"
  then show "x # xs = x # ys \<or>
    (\<exists>p c d q. x # xs = p @ c # q \<and> x # ys = p @ d # q) \<or>
    (\<exists>p c q. x # xs = p @ c # q \<and> x # ys = p @ q) \<or>
    (\<exists>p c q. x # xs = p @ q \<and> x # ys = p @ c # q)"
    by simp
next
  fix p c d q assume "xs = p @ c # q" "ys = p @ d # q"
  then have "x # xs = (x # p) @ c # q \<and> x # ys = (x # p) @ d # q" by simp
  then show "x # xs = x # ys \<or>
    (\<exists>p c d q. x # xs = p @ c # q \<and> x # ys = p @ d # q) \<or>
    (\<exists>p c q. x # xs = p @ c # q \<and> x # ys = p @ q) \<or>
    (\<exists>p c q. x # xs = p @ q \<and> x # ys = p @ c # q)"
    by blast
next
  fix p c q assume "xs = p @ c # q" "ys = p @ q"
  then have "x # xs = (x # p) @ c # q \<and> x # ys = (x # p) @ q" by simp
  then show "x # xs = x # ys \<or>
    (\<exists>p c d q. x # xs = p @ c # q \<and> x # ys = p @ d # q) \<or>
    (\<exists>p c q. x # xs = p @ c # q \<and> x # ys = p @ q) \<or>
    (\<exists>p c q. x # xs = p @ q \<and> x # ys = p @ c # q)"
    by blast
next
  fix p c q assume "xs = p @ q" "ys = p @ c # q"
  then have "x # xs = (x # p) @ q \<and> x # ys = (x # p) @ c # q" by simp
  then show "x # xs = x # ys \<or>
    (\<exists>p c d q. x # xs = p @ c # q \<and> x # ys = p @ d # q) \<or>
    (\<exists>p c q. x # xs = p @ c # q \<and> x # ys = p @ q) \<or>
    (\<exists>p c q. x # xs = p @ q \<and> x # ys = p @ c # q)"
    by blast
qed

lemma one_edit_substitute: "one_edit (x # s) (y # s)"
  unfolding one_edit_def by (intro disjI2 disjI1 exI [of _ "[]"]) auto

lemma one_edit_delete: "one_edit (x # s) s"
proof -
  have "x # s = [] @ x # s \<and> s = [] @ s" by simp
  then show ?thesis unfolding one_edit_def by blast
qed

lemma one_edit_insert: "one_edit s (x # s)"
proof -
  have "s = [] @ s \<and> x # s = [] @ x # s" by simp
  then show ?thesis unfolding one_edit_def by blast
qed

lemma lev_one_edit: "lev a b \<le> 1 \<Longrightarrow> one_edit a b"
proof (induction a b rule: lev.induct)
  case (1 ys)
  then have "ys = [] \<or> (\<exists>c. ys = [c])"
    by (cases ys) auto
  then show ?case
    using one_edit_insert [of "[]"] by (auto simp: one_edit_def)
next
  case (2 x xs)
  then have "xs = []" by simp
  then show ?case
    using one_edit_delete [of x "[]"] by simp
next
  case (3 x xs y ys)
  show ?case
  proof (cases "x = y")
    case True
    with 3 have "one_edit xs ys" by simp
    with True show ?thesis by (simp add: one_edit_Cons)
  next
    case False
    with "3.prems" have "lev xs ys = 0 \<or> lev (x # xs) ys = 0 \<or> lev xs (y # ys) = 0"
      by (auto simp: min_def split: if_splits)
    then have "xs = ys \<or> x # xs = ys \<or> xs = y # ys"
      by (simp add: lev_eq_0)
    then show ?thesis
      using one_edit_substitute [of x xs y] one_edit_insert [of "x # xs" y]
        one_edit_delete [of x "y # ys"]
      by auto
  qed
qed

lemma one_edit_code [code]: "one_edit a b = (lev a b \<le> 1)"
  using one_edit_lev [of a b] lev_one_edit [of a b] by blast

lemma one_edit_rev_sym: "one_edit a b \<Longrightarrow> one_edit (rev b) (rev a)"
  unfolding one_edit_def
proof (elim disjE exE conjE)
  assume "a = b"
  then show "rev b = rev a \<or>
    (\<exists>p c d q. rev b = p @ c # q \<and> rev a = p @ d # q) \<or>
    (\<exists>p c q. rev b = p @ c # q \<and> rev a = p @ q) \<or>
    (\<exists>p c q. rev b = p @ q \<and> rev a = p @ c # q)"
    by simp
next
  fix xs c d ys assume "a = xs @ c # ys" "b = xs @ d # ys"
  then have "rev b = rev ys @ d # rev xs \<and> rev a = rev ys @ c # rev xs" by simp
  then show "rev b = rev a \<or>
    (\<exists>p c d q. rev b = p @ c # q \<and> rev a = p @ d # q) \<or>
    (\<exists>p c q. rev b = p @ c # q \<and> rev a = p @ q) \<or>
    (\<exists>p c q. rev b = p @ q \<and> rev a = p @ c # q)"
    by blast
next
  fix xs c ys assume "a = xs @ c # ys" "b = xs @ ys"
  then have "rev b = rev ys @ rev xs \<and> rev a = rev ys @ c # rev xs" by simp
  then show "rev b = rev a \<or>
    (\<exists>p c d q. rev b = p @ c # q \<and> rev a = p @ d # q) \<or>
    (\<exists>p c q. rev b = p @ c # q \<and> rev a = p @ q) \<or>
    (\<exists>p c q. rev b = p @ q \<and> rev a = p @ c # q)"
    by blast
next
  fix xs c ys assume "a = xs @ ys" "b = xs @ c # ys"
  then have "rev b = rev ys @ c # rev xs \<and> rev a = rev ys @ rev xs" by simp
  then show "rev b = rev a \<or>
    (\<exists>p c d q. rev b = p @ c # q \<and> rev a = p @ d # q) \<or>
    (\<exists>p c q. rev b = p @ c # q \<and> rev a = p @ q) \<or>
    (\<exists>p c q. rev b = p @ q \<and> rev a = p @ c # q)"
    by blast
qed

lemma levenshtein_one_edit: "(levenshteinDistance a b \<le> 1) = one_edit a b"
proof
  assume "levenshteinDistance a b \<le> 1"
  then have "one_edit (rev b) (rev a)"
    by (simp add: levenshteinDistance_lev lev_one_edit)
  then have "one_edit (rev (rev a)) (rev (rev b))"
    by (rule one_edit_rev_sym)
  then show "one_edit a b" by simp
next
  assume "one_edit a b"
  then have "one_edit (rev b) (rev a)"
    by (rule one_edit_rev_sym)
  then have "lev (rev b) (rev a) \<le> 1"
    by (rule one_edit_lev)
  then show "levenshteinDistance a b \<le> 1"
    by (simp only: levenshteinDistance_lev)
qed

lemma isMatch_words_match: "isMatch target spoken = words_match target spoken"
  by (simp only: isMatch_def words_match_def levenshtein_one_edit)

subsection \<open>The loop aligns the words from left to right\<close>

lemma aligned_Nil2: "aligned k ts [] = []"
  by (cases ts) simp_all

lemma length_aligned: "length (aligned k ts ss) \<le> length ts"
proof (induction ts arbitrary: k ss)
  case Nil
  then show ?case by simp
next
  case (Cons t ts)
  have IH': "length (aligned k ts ss) \<le> Suc (length ts)" for k ss
    by (rule le_SucI) (rule Cons.IH)
  show ?case
    by (cases ss) (simp_all add: Cons.IH IH' split: list.splits)
qed

lemma look_ahead_aligned:
  assumes t: "tIndex < length targetWords" and s: "sIndex < length spokenWords"
    and no: "\<not> words_match (targetWords ! tIndex) (spokenWords ! sIndex)"
  shows "aligned tIndex (drop tIndex targetWords) (drop sIndex spokenWords) =
     (case look_ahead (targetWords ! tIndex) spokenWords sIndex of
        Some offset \<Rightarrow>
          tIndex # aligned (Suc tIndex) (drop (Suc tIndex) targetWords)
                     (drop (sIndex + offset + 1) spokenWords)
      | None \<Rightarrow> aligned (Suc tIndex) (drop (Suc tIndex) targetWords) (drop sIndex spokenWords))"
proof -
  have dt: "drop tIndex targetWords = targetWords ! tIndex # drop (Suc tIndex) targetWords"
    using t by (simp add: Cons_nth_drop_Suc)
  have ds: "drop sIndex spokenWords = spokenWords ! sIndex # drop (Suc sIndex) spokenWords"
    using s by (simp add: Cons_nth_drop_Suc)
  show ?thesis
  proof (cases "Suc sIndex < length spokenWords")
    case False
    then have "drop (Suc sIndex) spokenWords = []" by simp
    moreover from False have "look_ahead (targetWords ! tIndex) spokenWords sIndex = None"
      by (simp add: look_ahead_def)
    ultimately show ?thesis
      using no by (simp add: dt ds)
  next
    case s1: True
    then have ds1: "drop (Suc sIndex) spokenWords =
        spokenWords ! Suc sIndex # drop (Suc (Suc sIndex)) spokenWords"
      by (simp add: Cons_nth_drop_Suc)
    show ?thesis
    proof (cases "words_match (targetWords ! tIndex) (spokenWords ! Suc sIndex)")
      case True
      with s1 have "look_ahead (targetWords ! tIndex) spokenWords sIndex = Some 1"
        by (simp add: look_ahead_def isMatch_words_match)
      with True no show ?thesis
        by (simp add: dt ds ds1)
    next
      case no1: False
      show ?thesis
      proof (cases "Suc (Suc sIndex) < length spokenWords")
        case False
        then have "drop (Suc (Suc sIndex)) spokenWords = []" by simp
        moreover from False no1 have "look_ahead (targetWords ! tIndex) spokenWords sIndex = None"
          by (simp add: look_ahead_def isMatch_words_match)
        ultimately show ?thesis
          using no no1 by (simp add: dt ds ds1)
      next
        case s2: True
        then have ds2: "drop (Suc (Suc sIndex)) spokenWords =
            spokenWords ! Suc (Suc sIndex) # drop (Suc (Suc (Suc sIndex))) spokenWords"
          by (simp add: Cons_nth_drop_Suc)
        show ?thesis
        proof (cases "words_match (targetWords ! tIndex) (spokenWords ! Suc (Suc sIndex))")
          case True
          with s2 no1 have "look_ahead (targetWords ! tIndex) spokenWords sIndex = Some 2"
            by (simp add: look_ahead_def isMatch_words_match)
          with True no no1 show ?thesis
            by (simp add: dt ds ds1 ds2)
        next
          case False
          with no1 have "look_ahead (targetWords ! tIndex) spokenWords sIndex = None"
            by (simp add: look_ahead_def isMatch_words_match)
          with False no no1 show ?thesis
            by (simp add: dt ds ds1 ds2)
        qed
      qed
    qed
  qed
qed

lemma match_loop_aligned:
  "\<forall>i \<in> set matched. i < tIndex \<Longrightarrow>
   match_loop targetWords spokenWords tIndex sIndex matched =
     matched @ aligned tIndex (drop tIndex targetWords) (drop sIndex spokenWords)"
proof (induction targetWords spokenWords tIndex sIndex matched rule: match_loop.induct)
  case (1 targetWords spokenWords tIndex sIndex matched)
  show ?case
  proof (cases "tIndex < length targetWords \<and> sIndex < length spokenWords")
    case False
    then have "drop tIndex targetWords = [] \<or> drop sIndex spokenWords = []"
      by auto
    then have "aligned tIndex (drop tIndex targetWords) (drop sIndex spokenWords) = []"
      by (auto simp: aligned_Nil2)
    moreover have "match_loop targetWords spokenWords tIndex sIndex matched = matched"
      by (subst match_loop.simps) (simp only: False if_False)
    ultimately show ?thesis
      by simp
  next
    case True
    then have t: "tIndex < length targetWords" and s: "sIndex < length spokenWords"
      by simp_all
    have dt: "drop tIndex targetWords = targetWords ! tIndex # drop (Suc tIndex) targetWords"
      using t by (simp add: Cons_nth_drop_Suc)
    have ds: "drop sIndex spokenWords = spokenWords ! sIndex # drop (Suc sIndex) spokenWords"
      using s by (simp add: Cons_nth_drop_Suc)
    have fresh: "set_add tIndex matched = matched @ [tIndex]"
      using "1.prems" by (auto simp: set_add_def)
    have inv: "\<forall>i \<in> set (set_add tIndex matched). i < tIndex + 1"
      using "1.prems" by (auto simp: fresh)
    have inv': "\<forall>i \<in> set matched. i < tIndex + 1"
      using "1.prems" by auto
    show ?thesis
    proof (cases "isMatch (targetWords ! tIndex) (spokenWords ! sIndex)")
      case m: True
      have "match_loop targetWords spokenWords tIndex sIndex matched =
            match_loop targetWords spokenWords (tIndex + 1) (sIndex + 1) (set_add tIndex matched)"
        using True m by (simp add: match_loop.simps [of targetWords spokenWords tIndex sIndex matched])
      also have "\<dots> = set_add tIndex matched @
            aligned (tIndex + 1) (drop (tIndex + 1) targetWords) (drop (sIndex + 1) spokenWords)"
        using True m inv by (rule "1.IH"(1))
      also have "\<dots> = matched @
            aligned tIndex (drop tIndex targetWords) (drop sIndex spokenWords)"
        using m by (simp add: fresh dt ds isMatch_words_match)
      finally show ?thesis .
    next
      case m: False
      then have no: "\<not> words_match (targetWords ! tIndex) (spokenWords ! sIndex)"
        by (simp add: isMatch_words_match)
      note la = look_ahead_aligned [OF t s no]
      show ?thesis
      proof (cases "look_ahead (targetWords ! tIndex) spokenWords sIndex")
        case None
        have "match_loop targetWords spokenWords tIndex sIndex matched =
              match_loop targetWords spokenWords (tIndex + 1) sIndex matched"
          using True m None
          by (simp add: match_loop.simps [of targetWords spokenWords tIndex sIndex matched])
        also have "\<dots> = matched @
              aligned (tIndex + 1) (drop (tIndex + 1) targetWords) (drop sIndex spokenWords)"
          using True m None inv' by (rule "1.IH"(2))
        also have "\<dots> = matched @
              aligned tIndex (drop tIndex targetWords) (drop sIndex spokenWords)"
          using None by (simp add: la)
        finally show ?thesis .
      next
        case (Some offset)
        have "match_loop targetWords spokenWords tIndex sIndex matched =
              match_loop targetWords spokenWords (tIndex + 1) (sIndex + offset + 1)
                (set_add tIndex matched)"
          using True m Some
          by (simp add: match_loop.simps [of targetWords spokenWords tIndex sIndex matched])
        also have "\<dots> = set_add tIndex matched @
              aligned (tIndex + 1) (drop (tIndex + 1) targetWords)
                (drop (sIndex + offset + 1) spokenWords)"
          using True m Some inv by (rule "1.IH"(3))
        also have "\<dots> = matched @
              aligned tIndex (drop tIndex targetWords) (drop sIndex spokenWords)"
          using Some by (simp add: la fresh)
        finally show ?thesis .
      qed
    qed
  qed
qed

lemma matchedIndices_aligned:
  "matchedIndices_of text spokenText =
     aligned 0 (targetWords_of text) (spokenWords_of spokenText)"
  using match_loop_aligned [of "[]" 0 "targetWords_of text" "spokenWords_of spokenText" 0]
  by (simp add: matchedIndices_of_def)

subsection \<open>The threshold\<close>

text \<open>
  The quotient of the two counts and the literal \<open>0.85\<close> are doubles; for fewer than
  \<open>2 ^ 47\<close> target words the comparison of the doubles decides as the comparison of the
  exact ratio with 85 percent does. So the challenge is marked correct exactly when the
  words matched by the alignment are at least 85 percent of the entries of \<open>targetWords\<close>.
\<close>

lemma threshold_exact:
  fixes k n :: nat
  assumes n: "0 < n" "n < 2 ^ 47" and k: "k \<le> n"
  shows "(fl (85 / 100) \<le> js_div (of_nat k) (of_nat n)) = (17 * n \<le> 20 * k)"
proof -
  define a :: rat where "a = 85 / 100"
  define x :: rat where "x = of_nat k / of_nat n"
  define u :: rat where "u = 1 / 2 ^ 53"
  have npos: "(0::rat) < of_nat n" using n by simp
  have a: "0 < a" "a \<le> 1" by (simp_all add: a_def)
  have x: "0 \<le> x" "x \<le> 1" using k npos by (simp_all add: x_def)
  have ea: "\<bar>fl a - a\<bar> \<le> u"
  proof -
    have "\<bar>fl a - a\<bar> \<le> a / 2 ^ 53" by (rule fl_error [OF a(1)])
    also have "\<dots> \<le> 1 / 2 ^ 53" using a(2) by (simp add: divide_right_mono)
    finally show ?thesis by (simp add: u_def)
  qed
  have ex: "\<bar>fl x - x\<bar> \<le> u"
  proof (cases "x = 0")
    case True
    then show ?thesis by (simp add: fl_zero u_def)
  next
    case False
    with x have "0 < x" by simp
    then have "\<bar>fl x - x\<bar> \<le> x / 2 ^ 53" by (rule fl_error)
    also have "\<dots> \<le> 1 / 2 ^ 53" using x(2) by (simp add: divide_right_mono)
    finally show ?thesis by (simp add: u_def)
  qed
  have gap: "2 * u < 1 / (20 * of_nat n)"
  proof -
    have "(of_nat n :: rat) < 2 ^ 47"
      using n(2) by (metis of_nat_less_iff of_nat_numeral of_nat_power)
    then have "20 * (of_nat n :: rat) < 2 ^ 52" by simp
    then have "1 / 2 ^ 52 < 1 / (20 * (of_nat n :: rat))"
      using npos by (intro divide_strict_left_mono) simp_all
    then show ?thesis by (simp add: u_def)
  qed
  have js: "js_div (of_nat k) (of_nat n) = fl x"
    by (simp add: js_div_def x_def)
  have xa: "x - a = (20 * of_nat k - 17 * of_nat n) / (20 * of_nat n)"
    using npos by (simp add: x_def a_def field_simps)
  show ?thesis
  proof (cases "17 * n \<le> 20 * k")
    case le: True
    show ?thesis
    proof (cases "17 * n = 20 * k")
      case True
      then have "(of_nat (17 * n) :: rat) = of_nat (20 * k)" by (simp only:)
      then have "x - a = 0" by (simp add: xa)
      then have "fl a \<le> fl x" by simp
      with le show ?thesis by (simp add: js a_def)
    next
      case False
      with le have "17 * n + 1 \<le> 20 * k" by simp
      then have "(of_nat (17 * n + 1) :: rat) \<le> of_nat (20 * k)"
        by (simp only: of_nat_le_iff)
      then have "(1::rat) \<le> 20 * of_nat k - 17 * of_nat n" by simp
      then have "1 / (20 * of_nat n) \<le> x - a"
        using npos by (simp add: xa divide_right_mono)
      with gap ea ex have "fl a \<le> fl x" by linarith
      with le show ?thesis by (simp add: js a_def)
    qed
  next
    case False
    then have "20 * k + 1 \<le> 17 * n" by simp
    then have "(of_nat (20 * k + 1) :: rat) \<le> of_nat (17 * n)"
      by (simp only: of_nat_le_iff)
    then have "(1::rat) \<le> 17 * of_nat n - 20 * of_nat k" by simp
    then have "(1::rat) / (20 * of_nat n) \<le> (17 * of_nat n - 20 * of_nat k) / (20 * of_nat n)"
      using npos by (simp add: divide_right_mono)
    also have "\<dots> = a - x"
      using npos by (simp add: x_def a_def field_simps)
    finally have "1 / (20 * of_nat n) \<le> a - x" .
    with gap ea ex have "\<not> fl a \<le> fl x" by linarith
    with False show ?thesis by (simp add: js a_def)
  qed
qed

lemma split_ws_not_Nil: "split_ws s \<noteq> []"
  by (induction s rule: split_ws.induct) (auto split: list.splits)

lemma verifySpeech_threshold:
  assumes "length (targetWords_of text) < 2 ^ 47"
  shows "(verifySpeech text spokenText = Correct) =
         (17 * length (targetWords_of text) \<le>
          20 * length (aligned 0 (targetWords_of text) (spokenWords_of spokenText)))"
proof -
  have pos: "0 < length (targetWords_of text)"
    using split_ws_not_Nil [of "text"] by (simp add: targetWords_of_def)
  have le: "length (aligned 0 (targetWords_of text) (spokenWords_of spokenText))
            \<le> length (targetWords_of text)"
    by (rule length_aligned)
  from threshold_exact [OF pos assms le] show ?thesis
    by (simp add: verifySpeech_def Let_def matchedIndices_aligned)
qed

text \<open>
  C8 at a concrete text. The transcript is split on white space, its pieces are
  normalised and the empty ones are dropped; the target text is split and normalised in
  the same way, but its empty pieces are kept, and they count in the total of the target
  words though no spoken word can match them. For the target \<open>Ja - genau\<close> the target words
  are \<open>ja\<close>, the empty word and \<open>genau\<close>, where the same text as a transcript gives \<open>ja\<close>,
  \<open>genau\<close>. Reading the text exactly matches two of three target words, below 85 percent,
  so the challenge is not marked correct; with the target processed as the transcript is
  there are two words, both matched, and the threshold is met.
\<close>

theorem verifySpeech_rejects_exact_reading:
  "targetWords_of ''Ja - genau'' = [''ja'', '''', ''genau'']
   \<and> spokenWords_of ''Ja - genau'' = [''ja'', ''genau'']
   \<and> matchedIndices_of ''Ja - genau'' ''Ja - genau'' = [0, 2]
   \<and> verifySpeech ''Ja - genau'' ''Ja - genau'' = Recording
   \<and> verifySpeech ''Ja - genau'' ''ja genau'' = Recording
   \<and> aligned 0 (spokenWords_of ''Ja - genau'') (spokenWords_of ''ja genau'') = [0, 1]
   \<and> 17 * length (spokenWords_of ''Ja - genau'') \<le>
       20 * length (aligned 0 (spokenWords_of ''Ja - genau'') (spokenWords_of ''ja genau''))
   \<and> verifySpeech ''Ja genau'' ''ja genau'' = Correct"
  by code_simp

end
